theory Spec2Isabelle
  imports Main "HOL-Library.Multiset" "HOL-Library.Monad_Syntax" "HOL-Library.Product_Lexorder"
begin

section \<open>Sparse matrix product in coordinate format (cusp generic multiply)\<close>

text \<open>
  A shallow embedding of \<^verbatim>\<open>cusp::detail::generic::multiply\<close> for two
  \<^verbatim>\<open>coo_matrix\<close> operands (file \<^verbatim>\<open>cusp/detail/generic/detail/multiply.inl\<close>).
  The index type is modelled by \<open>nat\<close> (no overflow), the value type by any commutative
  semiring (exact arithmetic). An array is a list. An access whose position depends on
  the data (the maps of gather and scatter, \<^verbatim>\<open>operator[]\<close>) is undefined behaviour in
  C++ when it is out of range; here it yields \<open>None\<close>, which is then the result of the
  whole call: the model follows an undefined execution no further. The
  ranges that transform, the scans and the sorts read and write are whole arrays created
  in the function with the lengths these calls need.
\<close>

subsection \<open>Data model\<close>

record 'v coo_matrix =
  num_rows :: nat
  num_cols :: nat
  num_entries :: nat
  row_indices :: "nat list"
  column_indices :: "nat list"
  "values" :: "'v list"

text \<open>The three arrays have \<open>num_entries\<close> elements and every index is inside the shape.\<close>

definition wf_coo :: "'v coo_matrix \<Rightarrow> bool" where
  "wf_coo M \<longleftrightarrow>
     length (row_indices M) = num_entries M \<and>
     length (column_indices M) = num_entries M \<and>
     length (values M) = num_entries M \<and>
     list_all (\<lambda>r. r < num_rows M) (row_indices M) \<and>
     list_all (\<lambda>c. c < num_cols M) (column_indices M)"

text \<open>The triplets of a matrix, in storage order.\<close>

definition entries :: "'v coo_matrix \<Rightarrow> (nat \<times> nat \<times> 'v) list" where
  "entries M = zip (row_indices M) (zip (column_indices M) (values M))"

text \<open>The value a triplet list denotes at a coordinate: duplicates add up.\<close>

definition key_sum :: "nat \<Rightarrow> nat \<Rightarrow> (nat \<times> nat \<times> 'v::comm_monoid_add) list \<Rightarrow> 'v" where
  "key_sum i j es = sum_list (map (\<lambda>(r, c, v). v) (filter (\<lambda>(r, c, v). r = i \<and> c = j) es))"

definition coo_at :: "'v::comm_monoid_add coo_matrix \<Rightarrow> nat \<Rightarrow> nat \<Rightarrow> 'v" where
  "coo_at M i j = key_sum i j (entries M)"

subsection \<open>The array primitives used by multiply\<close>

text \<open>\<^verbatim>\<open>operator[]\<close> with the range check made explicit.\<close>

definition lookup :: "'a list \<Rightarrow> nat \<Rightarrow> 'a option" where
  "lookup xs i = (if i < length xs then Some (xs ! i) else None)"

text \<open>
  \<^verbatim>\<open>thrust::gather(first, last, map, input)\<close>: the output range has \<open>n\<close> elements and
  element \<open>i\<close> receives \<open>input[map[i]]\<close>.
\<close>

definition gather :: "nat \<Rightarrow> nat list \<Rightarrow> 'a list \<Rightarrow> 'a list option" where
  "gather n mp input = those (map (\<lambda>i. Option.bind (lookup mp i) (lookup input)) [0..<n])"

text \<open>
  \<^verbatim>\<open>thrust::scatter_if(first, last, map, stencil, output)\<close>: for each position of the
  input whose stencil is nonzero, the input element is stored at \<open>output[map[i]]\<close>.
\<close>

fun scatter_if :: "'a list \<Rightarrow> nat list \<Rightarrow> nat list \<Rightarrow> 'a list \<Rightarrow> 'a list option" where
  "scatter_if [] mp stencil output = Some output"
| "scatter_if (x # xs) (m # mp) (s # stencil) output =
     (if s \<noteq> 0
      then (if m < length output then scatter_if xs mp stencil (output[m := x]) else None)
      else scatter_if xs mp stencil output)"
| "scatter_if (x # xs) mp stencil output = None"

text \<open>\<^verbatim>\<open>thrust::transform\<close> with a binary operation, over two ranges of the same length.\<close>

definition transform :: "('a \<Rightarrow> 'b \<Rightarrow> 'c) \<Rightarrow> 'a list \<Rightarrow> 'b list \<Rightarrow> 'c list" where
  "transform f xs ys = map (\<lambda>(x, y). f x y) (zip xs ys)"

text \<open>\<^verbatim>\<open>thrust::exclusive_scan(first, last, result, init)\<close> with the default addition.\<close>

fun exclusive_scan :: "nat list \<Rightarrow> nat \<Rightarrow> nat list" where
  "exclusive_scan [] init = []"
| "exclusive_scan (x # xs) init = init # exclusive_scan xs (init + x)"

text \<open>\<^verbatim>\<open>thrust::inclusive_scan(first, last, result, binary_op)\<close>.\<close>

fun scan_from :: "('a \<Rightarrow> 'a \<Rightarrow> 'a) \<Rightarrow> 'a \<Rightarrow> 'a list \<Rightarrow> 'a list" where
  "scan_from f acc [] = []"
| "scan_from f acc (x # xs) = f acc x # scan_from f (f acc x) xs"

fun inclusive_scan :: "('a \<Rightarrow> 'a \<Rightarrow> 'a) \<Rightarrow> 'a list \<Rightarrow> 'a list" where
  "inclusive_scan f [] = []"
| "inclusive_scan f (x # xs) = x # scan_from f x xs"

text \<open>
  \<^verbatim>\<open>thrust::experimental::inclusive_segmented_scan(first, last, keys, result)\<close>: a running
  sum that starts again wherever the key differs from the key before it.
\<close>

fun segscan_from :: "nat \<Rightarrow> nat \<Rightarrow> nat list \<Rightarrow> nat list \<Rightarrow> nat list" where
  "segscan_from pk acc (x # xs) (k # ks) =
     (let v = (if k = pk then acc + x else x) in v # segscan_from k v xs ks)"
| "segscan_from pk acc xs ks = []"

fun inclusive_segmented_scan :: "nat list \<Rightarrow> nat list \<Rightarrow> nat list" where
  "inclusive_segmented_scan (x # xs) (k # ks) = x # segscan_from k x xs ks"
| "inclusive_segmented_scan xs ks = []"

text \<open>
  \<^verbatim>\<open>thrust::sort_by_key(keys_first, keys_last, values_first)\<close>: the keys are sorted and
  the values are permuted with them. Thrust implements it by its stable sort, and the
  second pass of multiply relies on that; the model is the stable insertion sort.
\<close>

definition sort_by_key :: "nat list \<Rightarrow> 'a list \<Rightarrow> nat list \<times> 'a list" where
  "sort_by_key keys vs = (let zs = sort_key fst (zip keys vs) in (map fst zs, map snd zs))"

text \<open>
  \<^verbatim>\<open>thrust::unique_by_key(keys_first, keys_last, values_first, binary_pred, binary_op)\<close>:
  each run of consecutive equal keys is replaced by one key, whose value is the
  combination of the values of the run.
\<close>

fun unique_by_key :: "('k \<Rightarrow> 'k \<Rightarrow> bool) \<Rightarrow> ('a \<Rightarrow> 'a \<Rightarrow> 'a) \<Rightarrow> ('k \<times> 'a) list \<Rightarrow> ('k \<times> 'a) list" where
  "unique_by_key binary_pred binary_op [] = []"
| "unique_by_key binary_pred binary_op [kv] = [kv]"
| "unique_by_key binary_pred binary_op ((k1, v1) # (k2, v2) # rest) =
     (if binary_pred k1 k2
      then unique_by_key binary_pred binary_op ((k1, binary_op v1 v2) # rest)
      else (k1, v1) # unique_by_key binary_pred binary_op ((k2, v2) # rest))"

text \<open>
  Modelled from the spec: \<^verbatim>\<open>cusp::detail::indices_to_offsets\<close> (declared in
  \<^verbatim>\<open>cusp/detail/format_utils.h\<close>, which is not part of the sources at hand). For a row
  index array sorted ascending, \<open>offsets[r]\<close> is the position of the first entry whose row
  is not less than \<open>r\<close>, so that \<open>offsets[0] = 0\<close>, the offsets never decrease, and
  \<open>offsets[r + 1] - offsets[r]\<close> is the length of row \<open>r\<close>. The second argument is the size of
  the offsets array.
\<close>

definition indices_to_offsets :: "nat list \<Rightarrow> nat \<Rightarrow> nat list" where
  "indices_to_offsets indices n = map (\<lambda>r. length (takeWhile (\<lambda>i. i < r) indices)) [0..<n]"

subsection \<open>The stages of multiply\<close>

text \<open>
  Lines 68 to 73: \<open>output_ptr\<close> has \<open>n + 1\<close> zero elements, the exclusive scan writes the
  first \<open>n\<close>, and the last one is written by hand from the elements at \<open>n - 1\<close>. The value
  \<open>n - 1\<close> is computed on an unsigned size, so \<open>n = 0\<close> gives a position out of range.
\<close>

definition write_range :: "'a list \<Rightarrow> 'a list \<Rightarrow> 'a list" where
  "write_range res output = res @ drop (length res) output"

definition trailing_total :: "nat \<Rightarrow> nat list \<Rightarrow> nat list \<Rightarrow> nat list option" where
  "trailing_total n output_ptr segment_lengths =
     (if n = 0 then None
      else do {
        p \<leftarrow> lookup output_ptr (n - 1);
        s \<leftarrow> lookup segment_lengths (n - 1);
        if n < length output_ptr then Some (output_ptr[n := p + s]) else None
      })"

definition output_layout :: "nat \<Rightarrow> nat list \<Rightarrow> nat list option" where
  "output_layout n segment_lengths =
     trailing_total n (write_range (exclusive_scan segment_lengths 0) (replicate (n + 1) 0))
       segment_lengths"

text \<open>Lines 54 to 130: from the operands to the intermediate arrays \<open>I\<close>, \<open>J\<close>, \<open>V\<close>.\<close>

definition expansion ::
  "'v::comm_semiring_1 coo_matrix \<Rightarrow> 'v coo_matrix \<Rightarrow> (nat list \<times> nat list \<times> 'v list) option" where
  "expansion A B = do {
     let B_row_offsets = indices_to_offsets (row_indices B) (num_rows B + 1);
     let B_row_lengths = transform (\<lambda>x y. x - y) (tl B_row_offsets) B_row_offsets;
     segment_lengths \<leftarrow> gather (num_entries A) (column_indices A) B_row_lengths;
     output_ptr \<leftarrow> output_layout (num_entries A) segment_lengths;
     coo_num_nonzeros \<leftarrow> lookup output_ptr (num_entries A);
     segments0 \<leftarrow> scatter_if [0..<num_entries A] output_ptr segment_lengths
                    (replicate coo_num_nonzeros 0);
     let segments = inclusive_scan max segments0;
     temp \<leftarrow> gather (num_entries A) (column_indices A) B_row_offsets;
     gather_locations0 \<leftarrow> scatter_if temp output_ptr segment_lengths
                            (replicate coo_num_nonzeros 1);
     let gather_locations = inclusive_segmented_scan gather_locations0 segments;
     I \<leftarrow> gather coo_num_nonzeros segments (row_indices A);
     J \<leftarrow> gather coo_num_nonzeros gather_locations (column_indices B);
     temp1 \<leftarrow> gather coo_num_nonzeros segments (values A);
     temp2 \<leftarrow> gather coo_num_nonzeros gather_locations (values B);
     let V = transform (\<lambda>a b. a * b) temp1 temp2;
     Some (I, J, V)
   }"

text \<open>
  Lines 132 to 147: the two sorting passes (by \<open>J\<close>, then by \<open>I\<close>, each carrying the other
  two arrays along) and the compression of equal \<open>(I, J)\<close> keys.
\<close>

definition sort_reduce ::
  "nat list \<times> nat list \<times> 'v::comm_semiring_1 list \<Rightarrow> nat list \<times> nat list \<times> 'v list" where
  "sort_reduce t =
     (case t of (I, J, V) \<Rightarrow>
        let (J1, IV1) = sort_by_key J (zip I V);
            (I2, JV2) = sort_by_key (map fst IV1) (zip J1 (map snd IV1));
            IJV = unique_by_key (\<lambda>a b. a = b) (\<lambda>a b. a + b) (zip (zip I2 (map fst JV2)) (map snd JV2))
        in (map (fst \<circ> fst) IJV, map (snd \<circ> fst) IJV, map snd IJV))"

text \<open>
  Lines 149 to 152: the destination is resized and its three arrays are assigned. Here
  \<open>NNZ\<close> is the common length of the compressed arrays.
\<close>

definition assemble ::
  "nat \<Rightarrow> nat \<Rightarrow> nat list \<times> nat list \<times> 'v list \<Rightarrow> 'v coo_matrix \<Rightarrow> 'v coo_matrix" where
  "assemble nr nc t C =
     (case t of (I, J, V) \<Rightarrow>
        C\<lparr>num_rows := nr, num_cols := nc, num_entries := length V,
          row_indices := I, column_indices := J, values := V\<rparr>)"

text \<open>
  The whole function. The result is the destination matrix after the call. The function
  has no exit between the check for empty operands and the assembly, and it validates
  nothing: every call on the general path runs all the stages and assigns the destination.
  The result \<open>None\<close> stands for a call in which a stage reads or writes out of range: its
  behaviour is undefined in C++, and the model says nothing about the destination then.
\<close>

definition multiply ::
  "'v::comm_semiring_1 coo_matrix \<Rightarrow> 'v coo_matrix \<Rightarrow> 'v coo_matrix \<Rightarrow> 'v coo_matrix option" where
  "multiply A B C =
     (if num_entries A = 0 \<or> num_entries B = 0
      then (let temp = \<lparr>num_rows = num_rows A, num_cols = num_cols B, num_entries = 0,
                        row_indices = [], column_indices = [], values = []\<rparr>
            in Some temp)
      else do {
        t \<leftarrow> expansion A B;
        Some (assemble (num_rows A) (num_cols B) (sort_reduce t) C)
      })"

subsection \<open>Reference notions of the specification\<close>

text \<open>
  What the theorems compare the code with. For the row index array of \<open>B\<close>,
  \<open>row_offset B r\<close> is \<open>offsets[r]\<close>, the position where row \<open>r\<close> starts, and
  \<open>row_length B r\<close> is \<open>offsets[r + 1] - offsets[r]\<close>, the number of entries of row \<open>r\<close>.
\<close>

definition row_offset :: "'v coo_matrix \<Rightarrow> nat \<Rightarrow> nat" where
  "row_offset B r = length (takeWhile (\<lambda>i. i < r) (row_indices B))"

definition row_length :: "'v coo_matrix \<Rightarrow> nat \<Rightarrow> nat" where
  "row_length B r = row_offset B (r + 1) - row_offset B r"

text \<open>
  The partial product number \<open>k\<close> of entry \<open>n\<close> of \<open>A\<close>, where that entry is \<open>(i, j, a)\<close>:
  row \<open>i\<close>, column \<open>B.column_indices[offsets[j] + k]\<close>, value
  \<open>a * B.values[offsets[j] + k]\<close>.
\<close>

definition triplet_at :: "'v::comm_semiring_1 coo_matrix \<Rightarrow> 'v coo_matrix \<Rightarrow> nat \<times> nat \<Rightarrow> nat \<times> nat \<times> 'v" where
  "triplet_at A B p =
     (case p of (n, k) \<Rightarrow>
        let g = row_offset B (column_indices A ! n) + k
        in (row_indices A ! n, column_indices B ! g, values A ! n * values B ! g))"

text \<open>
  The sequential expansion: a loop over the entries of \<open>A\<close> and, inside it, a loop over
  \<open>k\<close> in \<open>[0, segment_length)\<close>, appending one triplet each time.
\<close>

definition sequential_expansion ::
  "'v::comm_semiring_1 coo_matrix \<Rightarrow> 'v coo_matrix \<Rightarrow> (nat \<times> nat \<times> 'v) list" where
  "sequential_expansion A B =
     concat (map (\<lambda>n. map (\<lambda>k. triplet_at A B (n, k)) [0..<row_length B (column_indices A ! n)])
       [0..<num_entries A])"

text \<open>
  The strict lexicographic order on \<open>(row, column)\<close> pairs.
\<close>

definition coord_less :: "nat \<times> nat \<Rightarrow> nat \<times> nat \<Rightarrow> bool" where
  "coord_less a b \<longleftrightarrow> fst a < fst b \<or> (fst a = fst b \<and> snd a < snd b)"

text \<open>
  The inner loop of the dense product (lines 168 to 171 of the same file):
  \<^verbatim>\<open>v = 0; for k < A.num_cols: v += A(i,k) * B(k,j)\<close>, with the operands given by
  their element access.
\<close>

definition dense_entry :: "nat \<Rightarrow> (nat \<Rightarrow> nat \<Rightarrow> 'v::comm_semiring_1) \<Rightarrow> (nat \<Rightarrow> nat \<Rightarrow> 'v) \<Rightarrow> nat \<Rightarrow> nat \<Rightarrow> 'v" where
  "dense_entry n A B i j = foldl (\<lambda>v k. v + A i k * B k j) 0 [0..<n]"

text \<open>
  The identity matrix of size \<open>n\<close>: the diagonal of ones, stored by rows.
\<close>

definition identity_coo :: "nat \<Rightarrow> 'v::comm_semiring_1 coo_matrix" where
  "identity_coo n = \<lparr>num_rows = n, num_cols = n, num_entries = n, row_indices = [0..<n],
     column_indices = [0..<n], values = replicate n 1\<rparr>"

subsection \<open>Auxiliary notions of the proofs\<close>

text \<open>
  The segment lengths, and the positions \<open>(n, k)\<close> of the intermediate arrays in the order in
  which they are laid out: entry \<open>n\<close> of \<open>A\<close> owns \<open>segment_lengths[n]\<close> consecutive
  positions.
\<close>

definition segment_lengths_of :: "'v coo_matrix \<Rightarrow> 'v coo_matrix \<Rightarrow> nat list" where
  "segment_lengths_of A B = map (row_length B) (column_indices A)"

definition master :: "nat list \<Rightarrow> (nat \<times> nat) list" where
  "master ss = concat (map (\<lambda>n. map (Pair n) [0..<ss ! n]) [0..<length ss])"

text \<open>
  What one scatter leaves in the block of an entry: the scattered element in front, the
  initial value behind it.
\<close>

definition head_block :: "'a \<Rightarrow> 'a \<Rightarrow> nat \<Rightarrow> 'a list" where
  "head_block d x s = (if s = 0 then [] else x # replicate (s - 1) d)"

text \<open>
  The sequential expansion over lists of triplets: the slice of \<open>B\<close> that holds row \<open>j\<close>,
  and every entry of \<open>A\<close> multiplied with the slice of its column.
\<close>

definition B_row_slice :: "'v coo_matrix \<Rightarrow> nat \<Rightarrow> (nat \<times> nat \<times> 'v) list" where
  "B_row_slice B j = take (row_length B j) (drop (row_offset B j) (entries B))"

definition expand_seq ::
  "'v::comm_semiring_1 coo_matrix \<Rightarrow> 'v coo_matrix \<Rightarrow> (nat \<times> nat \<times> 'v) list" where
  "expand_seq A B =
     concat (map (\<lambda>(i, j, a). map (\<lambda>(r, c, b). (i, c, a * b)) (B_row_slice B j)) (entries A))"

text \<open>
  The sorting and merging stages on a list of triplets: sort by column, then by row, and
  add up each run of equal coordinates.
\<close>

definition two_pass :: "(nat \<times> nat \<times> 'v) list \<Rightarrow> (nat \<times> nat \<times> 'v) list" where
  "two_pass es = sort_key fst (sort_key (fst \<circ> snd) es)"

definition merge_runs :: "(nat \<times> nat \<times> 'v::comm_semiring_1) list \<Rightarrow> (nat \<times> nat \<times> 'v) list" where
  "merge_runs es =
     map (\<lambda>((i, j), v). (i, j, v))
       (unique_by_key (\<lambda>a b. a = b) (\<lambda>a b. a + b) (map (\<lambda>(i, j, v). ((i, j), v)) es))"

text \<open>
  The sum of the values stored under one key.
\<close>

definition run_sum :: "'k \<Rightarrow> ('k \<times> 'a::comm_monoid_add) list \<Rightarrow> 'a" where
  "run_sum k kvs = sum_list (map snd (filter (\<lambda>kv. fst kv = k) kvs))"

subsection \<open>Concrete matrices\<close>

text \<open>
  \<open>A_ex\<close> is unsorted and has three entries in column 1; \<open>B_ex\<close> is sorted by rows, has two
  entries at \<open>(1, 0)\<close> and no entry in row 2; all entries of \<open>A_hollow\<close> are in column 2;
  \<open>A_skew\<close> has five columns, more than \<open>B_ex\<close> has rows, and its one entry is in column
  1; \<open>E_ex\<close> has no entries.
\<close>

definition A_ex :: "int coo_matrix" where
  "A_ex = \<lparr>num_rows = 3, num_cols = 3, num_entries = 5, row_indices = [2, 0, 1, 0, 2],
     column_indices = [1, 0, 2, 1, 1], values = [1, 2, 3, 4, 5]\<rparr>"

definition B_ex :: "int coo_matrix" where
  "B_ex = \<lparr>num_rows = 3, num_cols = 2, num_entries = 4, row_indices = [0, 1, 1, 1],
     column_indices = [1, 0, 1, 0], values = [3, 4, 5, 6]\<rparr>"

definition C_ex :: "int coo_matrix" where
  "C_ex = \<lparr>num_rows = 1, num_cols = 1, num_entries = 1, row_indices = [0],
     column_indices = [0], values = [9]\<rparr>"

definition A_hollow :: "int coo_matrix" where
  "A_hollow = \<lparr>num_rows = 2, num_cols = 3, num_entries = 2, row_indices = [0, 1],
     column_indices = [2, 2], values = [1, 5]\<rparr>"


definition E_ex :: "int coo_matrix" where
  "E_ex = \<lparr>num_rows = 3, num_cols = 4, num_entries = 0, row_indices = [],
     column_indices = [], values = []\<rparr>"

section \<open>Properties of the primitives\<close>

lemma those_map_Some: "those (map (\<lambda>x. Some (f x)) xs) = Some (map f xs)"
  by (induction xs) simp_all

lemma gather_Some:
  assumes "\<forall>m \<in> set mp. m < length input"
  shows "gather (length mp) mp input = Some (map ((!) input) mp)"
proof -
  have "map (\<lambda>i. Option.bind (lookup mp i) (lookup input)) [0..<length mp]
        = map (\<lambda>i. Some (input ! (mp ! i))) [0..<length mp]"
    using assms by (simp add: lookup_def)
  moreover have "map (\<lambda>i. input ! (mp ! i)) [0..<length mp] = map ((!) input) mp"
    by (rule nth_equalityI) simp_all
  ultimately show ?thesis
    unfolding gather_def by (simp only: those_map_Some)
qed

lemma length_exclusive_scan: "length (exclusive_scan xs a) = length xs"
  by (induction xs arbitrary: a) simp_all

lemma nth_exclusive_scan:
  "i < length xs \<Longrightarrow> exclusive_scan xs a ! i = a + sum_list (take i xs)"
proof (induction xs arbitrary: a i)
  case Nil
  then show ?case by simp
next
  case (Cons x xs)
  then show ?case by (cases i) (simp_all add: add.assoc)
qed

lemma exclusive_scan_snoc:
  "exclusive_scan (xs @ [x]) a = exclusive_scan xs a @ [a + sum_list xs]"
  by (induction xs arbitrary: a) (simp_all add: add.assoc)

lemma output_layout_Some:
  assumes "seg \<noteq> []"
  shows "output_layout (length seg) seg = Some (exclusive_scan seg 0 @ [sum_list seg])"
proof -
  obtain ys y where seg: "seg = ys @ [y]"
    using assms by (cases seg rule: rev_cases) auto
  let ?ptr = "exclusive_scan seg 0 @ [0]"
  have "replicate (length seg + 1) (0::nat) = replicate (length seg) 0 @ [0]"
    by (simp add: replicate_append_same)
  then have w: "write_range (exclusive_scan seg 0) (replicate (length seg + 1) 0) = ?ptr"
    by (simp add: write_range_def length_exclusive_scan)
  have p: "lookup ?ptr (length seg - 1) = Some (sum_list ys)"
    by (simp add: lookup_def seg exclusive_scan_snoc length_exclusive_scan nth_append)
  have s: "lookup seg (length seg - 1) = Some y"
    by (simp add: lookup_def seg)
  have u: "?ptr[length seg := sum_list ys + y] = exclusive_scan seg 0 @ [sum_list seg]"
    using list_update_length [of "exclusive_scan seg 0" 0 "[]" "sum_list ys + y"]
    by (simp add: length_exclusive_scan seg)
  show ?thesis
    unfolding output_layout_def w trailing_total_def
    using assms p s u by (simp add: length_exclusive_scan)
qed

lemma scatter_if_blocks:
  "length xs = length ss \<Longrightarrow>
   scatter_if xs (exclusive_scan ss (length pre) @ rest) ss (pre @ replicate (sum_list ss) d)
   = Some (pre @ concat (map (\<lambda>(x, s). head_block d x s) (zip xs ss)))"
proof (induction ss arbitrary: xs pre)
  case Nil
  then show ?case by simp
next
  case (Cons s ss)
  then obtain x xs' where xs: "xs = x # xs'" and len: "length xs' = length ss"
    by (cases xs) auto
  show ?case
  proof (cases "s = 0")
    case True
    then show ?thesis
      using Cons.IH [OF len, of pre] by (simp add: xs head_block_def)
  next
    case False
    then obtain k where s: "s = Suc k" by (cases s) auto
    let ?pre = "pre @ x # replicate k d"
    have upd: "(pre @ replicate (s + sum_list ss) d)[length pre := x]
               = ?pre @ replicate (sum_list ss) d"
      by (simp add: s replicate_add)
    have "scatter_if xs' (exclusive_scan ss (length ?pre) @ rest) ss
            (?pre @ replicate (sum_list ss) d)
          = Some (?pre @ concat (map (\<lambda>(x, s). head_block d x s) (zip xs' ss)))"
      by (rule Cons.IH [OF len])
    moreover have "length ?pre = length pre + s" by (simp add: s)
    ultimately show ?thesis
      using False upd by (simp add: xs head_block_def s)
  qed
qed

lemma upt_add_Suc: "[m..<m + Suc n] = m # [Suc m..<Suc m + n]"
  by (subst upt_rec) simp

lemma scan_from_append:
  "scan_from f a (xs @ ys) = scan_from f a xs @ scan_from f (foldl f a xs) ys"
  by (induction xs arbitrary: a) simp_all

lemma scan_from_max_zeros: "scan_from max (a::nat) (replicate k 0) = replicate k a"
  by (induction k) simp_all

lemma foldl_max_zeros: "foldl max (a::nat) (replicate k 0) = a"
  by (induction k) simp_all

lemma inclusive_scan_max_nat: "inclusive_scan max xs = scan_from max (0::nat) xs"
  by (cases xs) simp_all

lemma scan_max_blocks:
  "length ns = length ss \<Longrightarrow> sorted ns \<Longrightarrow> \<forall>n \<in> set ns. a \<le> n \<Longrightarrow>
   scan_from max (a::nat) (concat (map (\<lambda>(x, s). head_block 0 x s) (zip ns ss)))
   = concat (map (\<lambda>(x, s). replicate s x) (zip ns ss))"
proof (induction ss arbitrary: a ns)
  case Nil
  then show ?case by simp
next
  case (Cons s ss)
  then obtain n ns' where ns: "ns = n # ns'" and len: "length ns' = length ss"
    by (cases ns) auto
  have srt: "sorted ns'" and le: "\<forall>n' \<in> set ns'. n \<le> n'" and an: "a \<le> n"
    using Cons.prems by (auto simp: ns)
  show ?case
  proof (cases "s = 0")
    case True
    have "\<forall>n' \<in> set ns'. a \<le> n'" using Cons.prems(3) by (simp add: ns)
    from Cons.IH [OF len srt this] True show ?thesis
      by (simp add: ns head_block_def)
  next
    case False
    then obtain k where s: "s = Suc k" by (cases s) auto
    have m: "max a n = n" using an by simp
    from Cons.IH [OF len srt le] show ?thesis
      by (simp add: ns head_block_def s m scan_from_append scan_from_max_zeros foldl_max_zeros)
  qed
qed

lemma segscan_ones:
  "segscan_from n a (replicate k (Suc 0) @ vs) (replicate k n @ ks)
   = [Suc a..<Suc a + k] @ segscan_from n (a + k) vs ks"
proof (induction k arbitrary: a)
  case 0
  then show ?case by simp
next
  case (Suc k)
  have "[Suc a..<Suc a + Suc k] = Suc a # [Suc (Suc a)..<Suc (Suc a) + k]"
    by (rule upt_add_Suc)
  then show ?case using Suc.IH [of "Suc a"] by simp
qed

lemma segscan_blocks:
  "length ts = length ss \<Longrightarrow> length ns = length ss \<Longrightarrow> distinct ns \<Longrightarrow>
   pk \<notin> set ns \<or> a = 0 \<Longrightarrow>
   segscan_from pk a (concat (map (\<lambda>(t, s). head_block 1 t s) (zip ts ss)))
     (concat (map (\<lambda>(x, s). replicate s x) (zip ns ss)))
   = concat (map (\<lambda>(t, s). [t..<t + s]) (zip ts ss))"
proof (induction ss arbitrary: ts ns pk a)
  case Nil
  then show ?case by simp
next
  case (Cons s ss)
  then obtain t ts' where ts: "ts = t # ts'" and len: "length ts' = length ss"
    by (cases ts) auto
  from Cons.prems obtain n ns' where ns: "ns = n # ns'" and len': "length ns' = length ss"
    by (cases ns) auto
  have dist: "distinct ns'" and notin: "n \<notin> set ns'"
    using Cons.prems(3) by (auto simp: ns)
  show ?case
  proof (cases "s = 0")
    case True
    have "pk \<notin> set ns' \<or> a = 0" using Cons.prems(4) by (auto simp: ns)
    from Cons.IH [OF len len' dist this] True show ?thesis
      by (simp add: ns ts head_block_def)
  next
    case False
    then obtain k where s: "s = Suc k" by (cases s) auto
    have v: "(if n = pk then a + t else t) = t" using Cons.prems(4) by (auto simp: ns)
    have r: "[t..<Suc (t + k)] = t # [Suc t..<Suc t + k]"
      using upt_add_Suc [of t k] by simp
    have "n \<notin> set ns' \<or> t + k = 0" using notin by simp
    from Cons.IH [OF len len' dist this] show ?thesis
      by (simp add: ns ts head_block_def s v r segscan_ones del: upt_Suc)
  qed
qed

lemma inclusive_segmented_scan_from:
  "inclusive_segmented_scan xs ks = segscan_from pk 0 xs ks"
  by (cases xs; cases ks) simp_all

section \<open>The expansion stage\<close>

lemma length_takeWhile_mono:
  "(\<And>x. P x \<Longrightarrow> Q x) \<Longrightarrow> length (takeWhile P xs) \<le> length (takeWhile Q xs)"
  by (induction xs) auto

lemma row_offset_mono: "r \<le> r' \<Longrightarrow> row_offset B r \<le> row_offset B r'"
  unfolding row_offset_def by (rule length_takeWhile_mono) simp

lemma row_offset_le: "row_offset B r \<le> length (row_indices B)"
  unfolding row_offset_def by (rule length_takeWhile_le)

lemma row_offset_plus_length: "row_offset B r + row_length B r = row_offset B (r + 1)"
  unfolding row_length_def using row_offset_mono [of r "r + 1" B] by simp

lemma nth_indices_to_offsets:
  "r < n \<Longrightarrow> indices_to_offsets (row_indices B) n ! r = row_offset B r"
  by (simp add: indices_to_offsets_def row_offset_def)

lemma length_indices_to_offsets: "length (indices_to_offsets xs n) = n"
  by (simp add: indices_to_offsets_def)

lemma B_row_lengths_eq:
  "transform (\<lambda>x y. x - y) (tl (indices_to_offsets (row_indices B) (n + 1)))
     (indices_to_offsets (row_indices B) (n + 1))
   = map (row_length B) [0..<n]"
proof (rule nth_equalityI)
  show "length (transform (\<lambda>x y. x - y) (tl (indices_to_offsets (row_indices B) (n + 1)))
     (indices_to_offsets (row_indices B) (n + 1))) = length (map (row_length B) [0..<n])"
    by (simp add: transform_def length_indices_to_offsets)
next
  fix i
  assume "i < length (transform (\<lambda>x y. x - y) (tl (indices_to_offsets (row_indices B) (n + 1)))
     (indices_to_offsets (row_indices B) (n + 1)))"
  then have i: "i < n"
    by (simp add: transform_def length_indices_to_offsets)
  then show "transform (\<lambda>x y. x - y) (tl (indices_to_offsets (row_indices B) (n + 1)))
     (indices_to_offsets (row_indices B) (n + 1)) ! i = map (row_length B) [0..<n] ! i"
    by (simp add: transform_def length_indices_to_offsets nth_tl nth_indices_to_offsets
        row_length_def)
qed

lemma zip_upt_nth: "zip [0..<length ss] ss = map (\<lambda>n. (n, ss ! n)) [0..<length ss]"
  by (rule nth_equalityI) simp_all

lemma segments_master:
  "concat (map (\<lambda>(x, s). replicate s x) (zip [0..<length ss] ss)) = map fst (master ss)"
  by (simp add: zip_upt_nth master_def map_concat comp_def map_replicate_const)

lemma upt_as_map: "[t..<t + s] = map (\<lambda>k. t + k) [0..<s]"
  using map_add_upt [of t s] by (simp add: add.commute)

lemma locations_master:
  assumes "length ts = length ss"
  shows "concat (map (\<lambda>(t, s). [t..<t + s]) (zip ts ss))
         = map (\<lambda>(n, k). ts ! n + k) (master ss)"
proof -
  have "zip ts ss = map (\<lambda>n. (ts ! n, ss ! n)) [0..<length ss]"
    using assms by (intro nth_equalityI) simp_all
  then show ?thesis
    by (simp add: master_def map_concat comp_def upt_as_map)
qed

lemma length_master: "length (master ss) = sum_list ss"
proof -
  have "length (master ss) = sum_list (map (\<lambda>n. ss ! n) [0..<length ss])"
    by (simp add: master_def length_concat comp_def)
  then show ?thesis by (simp add: map_nth)
qed

lemma master_bounds: "(n, k) \<in> set (master ss) \<Longrightarrow> n < length ss \<and> k < ss ! n"
  by (auto simp: master_def)

lemma expansion_master:
  fixes A B :: "'v::comm_semiring_1 coo_matrix"
  assumes wfA: "wf_coo A" and wfB: "wf_coo B"
    and dims: "num_cols A = num_rows B" and ne: "num_entries A \<noteq> 0"
  defines "M \<equiv> master (segment_lengths_of A B)"
  shows "expansion A B =
           Some (map (fst \<circ> triplet_at A B) M,
                 map (fst \<circ> snd \<circ> triplet_at A B) M,
                 map (snd \<circ> snd \<circ> triplet_at A B) M)"
proof -
  let ?N = "num_entries A"
  let ?cols = "column_indices A"
  let ?offs = "indices_to_offsets (row_indices B) (num_rows B + 1)"
  let ?lens = "map (row_length B) [0..<num_rows B]"
  define seg where "seg = segment_lengths_of A B"
  define ts where "ts = map (row_offset B) ?cols"
  define T where "T = sum_list seg"
  have lenA: "length (row_indices A) = ?N" "length ?cols = ?N" "length (values A) = ?N"
    using wfA by (simp_all add: wf_coo_def)
  have lenB: "length (column_indices B) = length (row_indices B)"
    "length (values B) = length (row_indices B)"
    using wfB by (simp_all add: wf_coo_def)
  have colsb: "\<forall>c \<in> set ?cols. c < num_rows B"
    using wfA dims by (simp add: wf_coo_def list_all_iff)
  have len_seg: "length seg = ?N" "length ts = ?N"
    by (simp_all add: seg_def ts_def segment_lengths_of_def lenA)
  have seg_ne: "seg \<noteq> []" using len_seg ne by auto
  have M_seg: "M = master seg" by (simp add: M_def seg_def)
  have sm: "concat (map (\<lambda>(x, s). replicate s x) (zip [0..<?N] seg)) = map fst M"
    using segments_master [of seg] by (simp only: len_seg M_seg)
  have g1: "gather ?N ?cols ?lens = Some seg"
  proof -
    have "gather (length ?cols) ?cols ?lens = Some (map ((!) ?lens) ?cols)"
      using colsb by (intro gather_Some) simp
    moreover have "map ((!) ?lens) ?cols = seg"
      using colsb by (simp add: seg_def segment_lengths_of_def)
    ultimately show ?thesis by (simp add: lenA)
  qed
  have g2: "gather ?N ?cols ?offs = Some ts"
  proof -
    have "gather (length ?cols) ?cols ?offs = Some (map ((!) ?offs) ?cols)"
      using colsb by (intro gather_Some) (auto simp: length_indices_to_offsets)
    moreover have "map ((!) ?offs) ?cols = ts"
      using colsb by (auto simp: ts_def nth_indices_to_offsets)
    ultimately show ?thesis by (simp add: lenA)
  qed
  have lay: "output_layout ?N seg = Some (exclusive_scan seg 0 @ [T])"
    using output_layout_Some [OF seg_ne] by (simp add: len_seg T_def)
  have lk: "lookup (exclusive_scan seg 0 @ [T]) ?N = Some T"
    using len_seg by (simp add: lookup_def length_exclusive_scan nth_append)
  have sc1: "scatter_if [0..<?N] (exclusive_scan seg 0 @ [T]) seg (replicate T 0)
             = Some (concat (map (\<lambda>(x, s). head_block 0 x s) (zip [0..<?N] seg)))"
    using scatter_if_blocks [of "[0..<?N]" seg "[]" "[T]" 0] by (simp add: len_seg T_def)
  have sc2: "scatter_if ts (exclusive_scan seg 0 @ [T]) seg (replicate T 1)
             = Some (concat (map (\<lambda>(x, s). head_block 1 x s) (zip ts seg)))"
    using scatter_if_blocks [of ts seg "[]" "[T]" 1] by (simp add: len_seg T_def)
  have segm: "inclusive_scan max (concat (map (\<lambda>(x, s). head_block 0 x s) (zip [0..<?N] seg)))
              = map fst M"
  proof -
    have "scan_from max 0 (concat (map (\<lambda>(x, s). head_block 0 x s) (zip [0..<?N] seg)))
          = concat (map (\<lambda>(x, s). replicate s x) (zip [0..<?N] seg))"
      by (rule scan_max_blocks) (simp_all add: len_seg)
    then show ?thesis
      by (simp only: inclusive_scan_max_nat sm)
  qed
  have locs: "inclusive_segmented_scan (concat (map (\<lambda>(x, s). head_block 1 x s) (zip ts seg)))
                (map fst M) = map (\<lambda>(n, k). ts ! n + k) M"
  proof -
    have "segscan_from 0 0 (concat (map (\<lambda>(x, s). head_block 1 x s) (zip ts seg)))
            (concat (map (\<lambda>(x, s). replicate s x) (zip [0..<?N] seg)))
          = concat (map (\<lambda>(t, s). [t..<t + s]) (zip ts seg))"
      by (rule segscan_blocks) (simp_all add: len_seg)
    then show ?thesis
      using locations_master [of ts seg]
      by (simp only: inclusive_segmented_scan_from [of _ _ 0] sm len_seg M_seg)
  qed
  have lenM: "length M = T"
    by (simp add: M_seg length_master T_def)
  have Mb: "\<And>n k. (n, k) \<in> set M \<Longrightarrow> n < ?N \<and> ts ! n + k < length (row_indices B)"
  proof -
    fix n k
    assume "(n, k) \<in> set M"
    then have n: "n < ?N" and k: "k < seg ! n"
      using master_bounds [of n k seg] by (simp_all add: M_seg len_seg)
    have "seg ! n = row_length B (?cols ! n)" "ts ! n = row_offset B (?cols ! n)"
      using n by (simp_all add: seg_def ts_def segment_lengths_of_def lenA)
    then have "ts ! n + k < row_offset B (?cols ! n + 1)"
      using k row_offset_plus_length [of B "?cols ! n"] by simp
    then show "n < ?N \<and> ts ! n + k < length (row_indices B)"
      using n row_offset_le [of B "?cols ! n + 1"] by simp
  qed
  have b1: "\<forall>m \<in> set (map fst M). m < ?N"
    using Mb by auto
  have b2: "\<forall>m \<in> set (map (\<lambda>(n, k). ts ! n + k) M). m < length (row_indices B)"
    using Mb by auto
  have l1: "length (map fst M) = T" and l2: "length (map (\<lambda>(n, k). ts ! n + k) M) = T"
    by (simp_all add: lenM)
  have gI: "gather T (map fst M) (row_indices A) = Some (map ((!) (row_indices A)) (map fst M))"
    using gather_Some [of "map fst M" "row_indices A"] b1 unfolding l1 lenA by blast
  have gV1: "gather T (map fst M) (values A) = Some (map ((!) (values A)) (map fst M))"
    using gather_Some [of "map fst M" "values A"] b1 unfolding l1 lenA by blast
  have gJ: "gather T (map (\<lambda>(n, k). ts ! n + k) M) (column_indices B)
            = Some (map ((!) (column_indices B)) (map (\<lambda>(n, k). ts ! n + k) M))"
    using gather_Some [of "map (\<lambda>(n, k). ts ! n + k) M" "column_indices B"] b2
    unfolding l2 lenB by blast
  have gV2: "gather T (map (\<lambda>(n, k). ts ! n + k) M) (values B)
            = Some (map ((!) (values B)) (map (\<lambda>(n, k). ts ! n + k) M))"
    using gather_Some [of "map (\<lambda>(n, k). ts ! n + k) M" "values B"] b2
    unfolding l2 lenB by blast
  have tsn: "\<And>n k. (n, k) \<in> set M \<Longrightarrow> ts ! n = row_offset B (?cols ! n)"
    using Mb by (simp add: ts_def lenA)
  have e1: "map ((!) (row_indices A)) (map fst M) = map (fst \<circ> triplet_at A B) M"
    by (simp add: triplet_at_def Let_def split_def comp_def)
  have e2: "map ((!) (column_indices B)) (map (\<lambda>(n, k). ts ! n + k) M)
            = map (fst \<circ> snd \<circ> triplet_at A B) M"
    using tsn by (auto simp: triplet_at_def Let_def)
  have e3: "transform (\<lambda>a b. a * b) (map ((!) (values A)) (map fst M))
              (map ((!) (values B)) (map (\<lambda>(n, k). ts ! n + k) M))
            = map (snd \<circ> snd \<circ> triplet_at A B) M"
    using tsn by (auto simp: transform_def zip_map_map zip_same_conv_map triplet_at_def Let_def)
  show ?thesis
    unfolding expansion_def
    by (simp only: Let_def B_row_lengths_eq g1 g2 lay lk sc1 sc2 segm locs gI gJ gV1 gV2 e1 e2 e3
        bind.bind_lunit)
qed

lemma take_drop_as_map:
  "m + n \<le> length xs \<Longrightarrow> take n (drop m xs) = map (\<lambda>k. xs ! (m + k)) [0..<n]"
  by (rule nth_equalityI) simp_all

lemma length_entries:
  "wf_coo M \<Longrightarrow> length (entries M) = num_entries M"
  by (simp add: wf_coo_def entries_def)

lemma nth_entries:
  "wf_coo M \<Longrightarrow> p < num_entries M \<Longrightarrow>
   entries M ! p = (row_indices M ! p, column_indices M ! p, values M ! p)"
  by (simp add: wf_coo_def entries_def)

lemma entries_as_map:
  assumes "wf_coo M"
  shows "entries M = map (\<lambda>n. (row_indices M ! n, column_indices M ! n, values M ! n))
                       [0..<num_entries M]"
  using assms by (intro nth_equalityI) (simp_all add: length_entries nth_entries)

lemma B_row_slice_as_map:
  assumes "wf_coo B"
  shows "B_row_slice B j
         = map (\<lambda>k. (row_indices B ! (row_offset B j + k), column_indices B ! (row_offset B j + k),
                      values B ! (row_offset B j + k))) [0..<row_length B j]"
proof -
  have len: "length (row_indices B) = num_entries B"
    using assms by (simp add: wf_coo_def)
  have le: "row_offset B j + row_length B j \<le> length (entries B)"
    using row_offset_le [of B "j + 1"] row_offset_plus_length [of B j]
    by (simp add: length_entries [OF assms] len)
  have "B_row_slice B j = map (\<lambda>k. entries B ! (row_offset B j + k)) [0..<row_length B j]"
    unfolding B_row_slice_def by (rule take_drop_as_map [OF le])
  also have "\<dots> = map (\<lambda>k. (row_indices B ! (row_offset B j + k),
                 column_indices B ! (row_offset B j + k),
                 values B ! (row_offset B j + k))) [0..<row_length B j]"
  proof (rule map_cong [OF refl])
    fix k
    assume "k \<in> set [0..<row_length B j]"
    then have "row_offset B j + k < num_entries B"
      using le by (simp add: length_entries [OF assms])
    then show "entries B ! (row_offset B j + k)
               = (row_indices B ! (row_offset B j + k), column_indices B ! (row_offset B j + k),
                  values B ! (row_offset B j + k))"
      by (rule nth_entries [OF assms])
  qed
  finally show ?thesis .
qed

lemma expand_seq_master:
  fixes A B :: "'v::comm_semiring_1 coo_matrix"
  assumes wfA: "wf_coo A" and wfB: "wf_coo B"
  shows "expand_seq A B = map (triplet_at A B) (master (segment_lengths_of A B))"
proof -
  have len: "length (column_indices A) = num_entries A"
    using wfA by (simp add: wf_coo_def)
  have "expand_seq A B
        = concat (map (\<lambda>n. map (\<lambda>k. triplet_at A B (n, k)) [0..<row_length B (column_indices A ! n)])
            [0..<num_entries A])"
    unfolding expand_seq_def
    by (simp add: entries_as_map [OF wfA] B_row_slice_as_map [OF wfB] comp_def triplet_at_def
        Let_def)
  also have "\<dots> = concat (map (\<lambda>n. map (\<lambda>k. triplet_at A B (n, k)) [0..<segment_lengths_of A B ! n])
            [0..<num_entries A])"
    by (rule arg_cong [where f = concat], rule map_cong [OF refl])
      (simp add: segment_lengths_of_def len)
  also have "\<dots> = map (triplet_at A B) (master (segment_lengths_of A B))"
    by (simp add: master_def map_concat comp_def segment_lengths_of_def len)
  finally show ?thesis .
qed

lemma zip3_map: "zip (map (fst \<circ> f) xs) (zip (map (fst \<circ> snd \<circ> f) xs) (map (snd \<circ> snd \<circ> f) xs)) = map f xs"
  by (induction xs) simp_all

section \<open>The sorting and merging stages\<close>

lemma insort_key_map:
  "insort_key f (g x) (map g ys) = map g (insort_key (\<lambda>y. f (g y)) x ys)"
  by (induction ys) simp_all

lemma sort_key_map: "sort_key f (map g xs) = map g (sort_key (\<lambda>y. f (g y)) xs)"
  by (induction xs) (simp_all add: insort_key_map)

lemma zip_swap:
  "length I = length V \<Longrightarrow> length J = length V \<Longrightarrow>
   zip J (zip I V) = map (\<lambda>(i, j, v). (j, i, v)) (zip I (zip J V))"
proof (induction V arbitrary: I J)
  case Nil
  then show ?case by simp
next
  case (Cons v V)
  then show ?case by (cases I; cases J) simp_all
qed

lemma first_pass:
  assumes "length I = length V" and "length J = length V"
  shows "sort_by_key J (zip I V)
         = (map (fst \<circ> snd) (sort_key (fst \<circ> snd) (zip I (zip J V))),
            map (\<lambda>(i, j, v). (i, v)) (sort_key (fst \<circ> snd) (zip I (zip J V))))"
  by (simp add: sort_by_key_def zip_swap [OF assms] sort_key_map split_def comp_def)

lemma second_pass:
  "sort_by_key (map fst (map (\<lambda>(i, j, v). (i, v)) xs))
     (zip (map (fst \<circ> snd) xs) (map snd (map (\<lambda>(i, j, v). (i, v)) xs)))
   = (map fst (sort_key fst xs), map snd (sort_key fst xs))"
proof -
  have "zip (map fst (map (\<lambda>(i, j, v). (i, v)) xs))
          (zip (map (fst \<circ> snd) xs) (map snd (map (\<lambda>(i, j, v). (i, v)) xs))) = xs"
    by (induction xs) auto
  then show ?thesis by (simp only: sort_by_key_def Let_def)
qed

lemma keyed_zip:
  "zip (zip (map fst xs) (map fst (map snd xs))) (map snd (map snd xs))
   = map (\<lambda>(i, j, v). ((i, j), v)) xs"
  by (induction xs) auto

lemma sort_reduce_triplets:
  fixes V :: "'v::comm_semiring_1 list"
  assumes "length I = length V" and "length J = length V"
  defines "R \<equiv> merge_runs (two_pass (zip I (zip J V)))"
  shows "sort_reduce (I, J, V) = (map fst R, map (fst \<circ> snd) R, map (snd \<circ> snd) R)"
proof -
  have "sort_reduce (I, J, V)
        = (let IJV = unique_by_key (\<lambda>a b. a = b) (\<lambda>a b. a + b)
                       (map (\<lambda>(i, j, v). ((i, j), v)) (two_pass (zip I (zip J V))))
           in (map (fst \<circ> fst) IJV, map (snd \<circ> fst) IJV, map snd IJV))"
    unfolding sort_reduce_def two_pass_def
    by (simp only: prod.case first_pass [OF assms(1,2)] second_pass keyed_zip Let_def)
  then show ?thesis
    by (simp add: R_def merge_runs_def Let_def split_def comp_def)
qed

lemma coord_less_iff: "coord_less a b \<longleftrightarrow> a < b"
  by (cases a; cases b) (auto simp: coord_less_def)

lemma mset_two_pass: "mset (two_pass es) = mset es"
  by (simp add: two_pass_def)

lemma key_sum_mset:
  "key_sum i j es
   = sum_mset (image_mset (\<lambda>(r, c, v). v) (filter_mset (\<lambda>(r, c, v). r = i \<and> c = j) (mset es)))"
  unfolding key_sum_def by (simp only: sum_mset_sum_list [symmetric] mset_map mset_filter)

lemma key_sum_two_pass: "key_sum i j (two_pass es) = key_sum i j es"
  by (simp only: key_sum_mset mset_two_pass)

lemma sorted_insort_lex:
  fixes f :: "'a \<Rightarrow> nat" and g :: "'a \<Rightarrow> nat"
  assumes "sorted (map (\<lambda>y. (f y, g y)) ys)" and "\<forall>y \<in> set ys. g x \<le> g y"
  shows "sorted (map (\<lambda>y. (f y, g y)) (insort_key f x ys))"
  using assms
proof (induction ys)
  case Nil
  then show ?case by simp
next
  case (Cons y ys)
  show ?case
  proof (cases "f x \<le> f y")
    case True
    have "\<forall>z \<in> set (y # ys). (f x, g x) \<le> (f z, g z)"
    proof
      fix z
      assume z: "z \<in> set (y # ys)"
      then have "(f y, g y) \<le> (f z, g z)" using Cons.prems(1) by auto
      then have "f y \<le> f z" by (auto simp: less_eq_prod_def)
      moreover have "g x \<le> g z" using Cons.prems(2) z by auto
      ultimately show "(f x, g x) \<le> (f z, g z)"
        using True by (auto simp: less_eq_prod_def)
    qed
    then show ?thesis using True Cons.prems(1) by simp
  next
    case False
    then have "(f y, g y) \<le> (f x, g x)" by (auto simp: less_eq_prod_def)
    moreover have "sorted (map (\<lambda>y. (f y, g y)) (insort_key f x ys))"
      using Cons by simp
    ultimately show ?thesis
      using False Cons.prems(1) by (auto simp: set_insort_key)
  qed
qed

lemma sorted_second_pass:
  fixes f :: "'a \<Rightarrow> nat" and g :: "'a \<Rightarrow> nat"
  shows "sorted (map g xs) \<Longrightarrow> sorted (map (\<lambda>y. (f y, g y)) (sort_key f xs))"
proof (induction xs)
  case Nil
  then show ?case by simp
next
  case (Cons x xs)
  then have "sorted (map (\<lambda>y. (f y, g y)) (sort_key f xs))" by simp
  moreover have "\<forall>y \<in> set (sort_key f xs). g x \<le> g y" using Cons.prems by simp
  ultimately show ?case by (simp add: sorted_insort_lex)
qed

lemma sorted_two_pass: "sorted (map (\<lambda>e. (fst e, (fst \<circ> snd) e)) (two_pass es))"
  unfolding two_pass_def
  by (rule sorted_second_pass) (rule sorted_sort_key)

lemma unique_by_key_keys:
  "fst ` set (unique_by_key p f kvs) \<subseteq> fst ` set kvs"
  by (induction p f kvs rule: unique_by_key.induct) (auto split: if_splits)

lemma sorted_unique_by_key:
  fixes kvs :: "('k::linorder \<times> 'a) list"
  shows "p = (=) \<Longrightarrow> sorted (map fst kvs) \<Longrightarrow> sorted_wrt (<) (map fst (unique_by_key p f kvs))"
proof (induction p f kvs rule: unique_by_key.induct)
  case (1 p f)
  then show ?case by simp
next
  case (2 p f kv)
  then show ?case by simp
next
  case (3 p f k1 v1 k2 v2 rest)
  note p = \<open>p = (=)\<close>
  show ?case
  proof (cases "k1 = k2")
    case True
    then have "sorted (map fst ((k1, f v1 v2) # rest))" using "3.prems"(2) by simp
    then show ?thesis using "3.IH"(1) p True by simp
  next
    case False
    have srt: "sorted (map fst ((k2, v2) # rest))"
      using "3.prems"(2) by simp
    have "\<forall>k \<in> fst ` set ((k2, v2) # rest). k1 < k"
      using "3.prems"(2) False by auto
    then have "\<forall>k \<in> fst ` set (unique_by_key p f ((k2, v2) # rest)). k1 < k"
      using unique_by_key_keys [of p f "(k2, v2) # rest"] by blast
    moreover have "sorted_wrt (<) (map fst (unique_by_key p f ((k2, v2) # rest)))"
      using "3.IH"(2) p False srt by simp
    ultimately show ?thesis
      using False p by simp
  qed
qed

lemma run_sum_unique_by_key:
  fixes kvs :: "('k \<times> 'a::comm_monoid_add) list"
  shows "p = (=) \<Longrightarrow> f = (+) \<Longrightarrow> run_sum k (unique_by_key p f kvs) = run_sum k kvs"
proof (induction p f kvs rule: unique_by_key.induct)
  case (1 p f)
  then show ?case by simp
next
  case (2 p f kv)
  then show ?case by simp
next
  case (3 p f k1 v1 k2 v2 rest)
  then show ?case
    by (cases "k1 = k2") (simp_all add: run_sum_def add.assoc)
qed

lemma key_sum_run_sum:
  "key_sum i j es = run_sum (i, j) (map (\<lambda>(i, j, v). ((i, j), v)) es)"
  by (induction es) (auto simp: key_sum_def run_sum_def)

lemma key_sum_merge_runs: "key_sum i j (merge_runs es) = key_sum i j es"
proof -
  let ?u = "unique_by_key (\<lambda>a b. a = b) (\<lambda>a b. a + b) (map (\<lambda>(i, j, v). ((i, j), v)) es)"
  have "map (\<lambda>(i, j, v). ((i, j), v)) (merge_runs es) = ?u"
    by (simp add: merge_runs_def split_def comp_def)
  then have "key_sum i j (merge_runs es) = run_sum (i, j) ?u"
    by (simp only: key_sum_run_sum)
  also have "\<dots> = key_sum i j es"
    by (simp only: key_sum_run_sum run_sum_unique_by_key [OF refl refl])
  finally show ?thesis .
qed

lemma strict_merge_runs:
  assumes "sorted (map (\<lambda>e. (fst e, (fst \<circ> snd) e)) es)"
  shows "sorted_wrt coord_less (map (\<lambda>e. (fst e, (fst \<circ> snd) e)) (merge_runs es))"
proof -
  let ?kvs = "map (\<lambda>(i, j, v). ((i, j), v)) es"
  have k: "map fst ?kvs = map (\<lambda>e. (fst e, (fst \<circ> snd) e)) es"
    by (simp add: split_def comp_def)
  have "sorted_wrt (<) (map fst (unique_by_key (\<lambda>a b. a = b) (\<lambda>a b. a + b) ?kvs))"
    by (rule sorted_unique_by_key [OF refl]) (simp only: k assms)
  moreover have "map (\<lambda>e. (fst e, (fst \<circ> snd) e)) (merge_runs es)
                 = map fst (unique_by_key (\<lambda>a b. a = b) (\<lambda>a b. a + b) ?kvs)"
    by (simp add: merge_runs_def split_def comp_def)
  moreover have "coord_less = (<)"
    by (simp add: fun_eq_iff coord_less_iff)
  ultimately show ?thesis by simp
qed

section \<open>The value of the expansion at a coordinate\<close>

lemma takeWhile_sorted_run:
  fixes f :: "'a \<Rightarrow> nat"
  shows "sorted (map f xs) \<Longrightarrow> \<forall>e \<in> set xs. j \<le> f e \<Longrightarrow>
         takeWhile (\<lambda>e. f e < Suc j) xs = filter (\<lambda>e. f e = j) xs"
proof (induction xs)
  case Nil
  then show ?case by simp
next
  case (Cons e xs)
  show ?case
  proof (cases "f e = j")
    case True
    then show ?thesis using Cons by simp
  next
    case False
    then have "j < f e" using Cons.prems(2) by (simp add: le_neq_implies_less)
    moreover from this have "\<forall>e' \<in> set xs. f e' \<noteq> j" using Cons.prems(1) by auto
    ultimately show ?thesis by (simp add: filter_empty_conv)
  qed
qed

lemma sorted_slice:
  fixes f :: "'a \<Rightarrow> nat"
  shows "sorted (map f xs) \<Longrightarrow>
         take (length (takeWhile (\<lambda>e. f e < Suc j) xs) - length (takeWhile (\<lambda>e. f e < j) xs))
           (drop (length (takeWhile (\<lambda>e. f e < j) xs)) xs)
         = filter (\<lambda>e. f e = j) xs"
proof (induction xs)
  case Nil
  then show ?case by simp
next
  case (Cons e xs)
  show ?case
  proof (cases "f e < j")
    case True
    then show ?thesis using Cons by simp
  next
    case False
    then have ge: "\<forall>e' \<in> set (e # xs). j \<le> f e'" using Cons.prems by auto
    have "take (length (takeWhile (\<lambda>e. f e < Suc j) (e # xs))) (e # xs)
          = takeWhile (\<lambda>e. f e < Suc j) (e # xs)"
      by (rule takeWhile_eq_take [symmetric])
    also have "\<dots> = filter (\<lambda>e. f e = j) (e # xs)"
      by (rule takeWhile_sorted_run [OF Cons.prems ge])
    finally show ?thesis using False by simp
  qed
qed

lemma row_offset_entries:
  assumes "wf_coo B"
  shows "row_offset B r = length (takeWhile (\<lambda>e. fst e < r) (entries B))"
proof -
  have "map fst (entries B) = row_indices B"
    using assms by (simp add: entries_def wf_coo_def)
  then have "row_offset B r = length (takeWhile (\<lambda>i. i < r) (map fst (entries B)))"
    by (simp add: row_offset_def)
  then show ?thesis by (simp add: takeWhile_map comp_def)
qed

lemma B_row_slice_sorted:
  assumes "wf_coo B" and "sorted (row_indices B)"
  shows "B_row_slice B j = filter (\<lambda>e. fst e = j) (entries B)"
proof -
  have "map fst (entries B) = row_indices B"
    using assms(1) by (simp add: entries_def wf_coo_def)
  then have "sorted (map fst (entries B))" using assms(2) by simp
  from sorted_slice [OF this, of j] show ?thesis
    by (simp add: B_row_slice_def row_length_def row_offset_entries [OF assms(1)])
qed

text \<open>
  The model of \<^verbatim>\<open>indices_to_offsets\<close> meets its contract on a sorted index array with
  values below \<open>n\<close>: \<open>n + 1\<close> offsets that never decrease, from 0 to the number of
  entries, whose differences are the row lengths.
\<close>

lemma row_length_absent: "r \<notin> set (row_indices B) \<Longrightarrow> row_length B r = 0"
proof -
  assume "r \<notin> set (row_indices B)"
  then have "takeWhile (\<lambda>i. i < r + 1) (row_indices B) = takeWhile (\<lambda>i. i < r) (row_indices B)"
    by (intro takeWhile_cong) (auto simp: less_Suc_eq)
  then show ?thesis by (simp add: row_length_def row_offset_def)
qed

lemma row_length_sorted:
  assumes "sorted (row_indices B)"
  shows "row_length B r = length (filter (\<lambda>i. i = r) (row_indices B))"
proof -
  have "sorted (map (\<lambda>i. i) (row_indices B))" using assms by simp
  from sorted_slice [OF this, of r] have
    "length (take (row_length B r) (drop (row_offset B r) (row_indices B)))
     = length (filter (\<lambda>i. i = r) (row_indices B))"
    by (simp add: row_length_def row_offset_def)
  moreover have "row_offset B r + row_length B r \<le> length (row_indices B)"
    using row_offset_plus_length [of B r] row_offset_le [of B "r + 1"] by simp
  ultimately show ?thesis by simp
qed

lemma indices_to_offsets_contract:
  fixes B :: "'v coo_matrix"
  assumes "sorted (row_indices B)" and "\<forall>i \<in> set (row_indices B). i < n"
  defines "offsets \<equiv> indices_to_offsets (row_indices B) (n + 1)"
  shows "length offsets = n + 1" and "sorted offsets" and "offsets ! 0 = 0"
    and "offsets ! n = length (row_indices B)"
    and "\<forall>r < n. offsets ! (r + 1) - offsets ! r = length (filter (\<lambda>i. i = r) (row_indices B))"
proof -
  show "length offsets = n + 1"
    by (simp add: offsets_def length_indices_to_offsets)
  show "sorted offsets"
    unfolding sorted_iff_nth_mono
  proof (intro allI impI)
    fix i j
    assume "i \<le> j" and "j < length offsets"
    then have "i < n + 1" and "j < n + 1"
      by (simp_all add: offsets_def length_indices_to_offsets)
    then have "offsets ! i = row_offset B i" and "offsets ! j = row_offset B j"
      by (simp_all add: offsets_def nth_indices_to_offsets)
    then show "offsets ! i \<le> offsets ! j"
      using row_offset_mono [OF \<open>i \<le> j\<close>, of B] by simp
  qed
  have "takeWhile (\<lambda>i. i < 0) (row_indices B) = []"
    by (cases "row_indices B") simp_all
  then show "offsets ! 0 = 0"
    by (simp add: offsets_def nth_indices_to_offsets row_offset_def)
  have tw: "takeWhile (\<lambda>i. i < n) (row_indices B) = row_indices B"
    using assms(2) by (simp add: takeWhile_eq_all_conv)
  have "offsets ! n = row_offset B n"
    by (simp add: offsets_def nth_indices_to_offsets)
  then show "offsets ! n = length (row_indices B)"
    by (simp only: row_offset_def tw)
  show "\<forall>r < n. offsets ! (r + 1) - offsets ! r = length (filter (\<lambda>i. i = r) (row_indices B))"
    using row_length_sorted [OF assms(1)]
    by (simp add: offsets_def nth_indices_to_offsets row_length_def)
qed

lemma key_sum_Nil: "key_sum i j [] = 0"
  by (simp add: key_sum_def)

lemma key_sum_append: "key_sum i j (xs @ ys) = key_sum i j xs + key_sum i j ys"
  by (simp add: key_sum_def)

lemma key_sum_Cons:
  "key_sum i j ((r, c, v) # es) = (if r = i \<and> c = j then v else 0) + key_sum i j es"
  by (simp add: key_sum_def)

lemma key_sum_concat:
  "key_sum i j (concat (map F xs)) = sum_list (map (\<lambda>x. key_sum i j (F x)) xs)"
  by (induction xs) (simp_all add: key_sum_Nil key_sum_append)

lemma key_sum_scaled_row:
  fixes a :: "'v::comm_semiring_1"
  shows "key_sum i j (map (\<lambda>(r, c, x). (i', c, a * x)) (filter (\<lambda>e. fst e = k) es))
         = (if i' = i then a * key_sum k j es else 0)"
proof (induction es)
  case Nil
  then show ?case by (simp add: key_sum_Nil)
next
  case (Cons e es)
  obtain r c b where e: "e = (r, c, b)" by (cases e) auto
  show ?case using Cons by (auto simp: e key_sum_Cons key_sum_Nil distrib_left)
qed

lemma key_sum_expand_seq:
  fixes A B :: "'v::comm_semiring_1 coo_matrix"
  assumes "wf_coo B" and "sorted (row_indices B)"
  shows "key_sum i j (expand_seq A B)
         = sum_list (map (\<lambda>(r, c, a). if r = i then a * coo_at B c j else 0) (entries A))"
  unfolding expand_seq_def key_sum_concat
  by (rule arg_cong [where f = sum_list], rule map_cong [OF refl])
    (auto simp: B_row_slice_sorted [OF assms] key_sum_scaled_row coo_at_def)

lemma row_by_columns:
  fixes F :: "nat \<Rightarrow> 'v::comm_semiring_1"
  assumes "\<forall>e \<in> set es. fst (snd e) < n"
  shows "(\<Sum>k<n. key_sum i k es * F k)
         = sum_list (map (\<lambda>(r, c, a). if r = i then a * F c else 0) es)"
  using assms
proof (induction es)
  case Nil
  then show ?case by (simp add: key_sum_Nil)
next
  case (Cons e es)
  obtain r c a where e: "e = (r, c, a)" by (cases e) auto
  have c: "c < n" using Cons.prems by (simp add: e)
  have "(\<Sum>k<n. key_sum i k (e # es) * F k)
        = (\<Sum>k<n. (if r = i \<and> c = k then a else 0) * F k) + (\<Sum>k<n. key_sum i k es * F k)"
    by (simp add: e key_sum_Cons distrib_right sum.distrib)
  also have "(\<Sum>k<n. (if r = i \<and> c = k then a else 0) * F k) = (if r = i then a * F c else 0)"
  proof (cases "r = i")
    case True
    have "(\<Sum>k<n. (if c = k then a else 0) * F k) = (\<Sum>k\<in>{..<n}. if c = k then a * F k else 0)"
      by (rule sum.cong) simp_all
    also have "\<dots> = a * F c" using c by (simp add: sum.delta')
    finally show ?thesis using True by simp
  next
    case False
    then show ?thesis by simp
  qed
  finally show ?case using Cons by (simp add: e)
qed

section \<open>The result of multiply\<close>

lemma sequential_expansion_master:
  fixes A B :: "'v::comm_semiring_1 coo_matrix"
  assumes "wf_coo A"
  shows "sequential_expansion A B = map (triplet_at A B) (master (segment_lengths_of A B))"
proof -
  have len: "length (column_indices A) = num_entries A"
    using assms by (simp add: wf_coo_def)
  have "sequential_expansion A B
        = concat (map (\<lambda>n. map (\<lambda>k. triplet_at A B (n, k)) [0..<segment_lengths_of A B ! n])
            [0..<num_entries A])"
    unfolding sequential_expansion_def
    by (rule arg_cong [where f = concat], rule map_cong [OF refl])
      (simp add: segment_lengths_of_def len)
  also have "\<dots> = map (triplet_at A B) (master (segment_lengths_of A B))"
    by (simp add: master_def map_concat comp_def segment_lengths_of_def len)
  finally show ?thesis .
qed

lemma sequential_expansion_rows:
  fixes A B :: "'v::comm_semiring_1 coo_matrix"
  assumes "wf_coo A" and "wf_coo B"
  shows "sequential_expansion A B = expand_seq A B"
  by (simp only: sequential_expansion_master [OF assms(1)] expand_seq_master [OF assms])

lemma unzip3:
  "zip (map fst R) (zip (map (fst \<circ> snd) R) (map (snd \<circ> snd) R)) = R"
  by (induction R) simp_all

lemma two_pass_Nil: "two_pass [] = []"
  by (simp add: two_pass_def)

lemma merge_runs_Nil: "merge_runs [] = []"
  by (simp add: merge_runs_def)

lemma multiply_empty:
  "num_entries A = 0 \<or> num_entries B = 0 \<Longrightarrow>
   multiply A B C = Some \<lparr>num_rows = num_rows A, num_cols = num_cols B, num_entries = 0,
      row_indices = [], column_indices = [], values = []\<rparr>"
  by (simp add: multiply_def)

lemma multiply_general:
  fixes A B C :: "'v::comm_semiring_1 coo_matrix"
  assumes "wf_coo A" and "wf_coo B" and "num_cols A = num_rows B"
    and "num_entries A \<noteq> 0" and "num_entries B \<noteq> 0"
  defines "R \<equiv> merge_runs (two_pass (sequential_expansion A B))"
  shows "multiply A B C = Some \<lparr>num_rows = num_rows A, num_cols = num_cols B,
           num_entries = length R, row_indices = map fst R,
           column_indices = map (fst \<circ> snd) R, values = map (snd \<circ> snd) R\<rparr>"
proof -
  let ?M = "master (segment_lengths_of A B)"
  let ?I = "map (fst \<circ> triplet_at A B) ?M"
  let ?J = "map (fst \<circ> snd \<circ> triplet_at A B) ?M"
  let ?V = "map (snd \<circ> snd \<circ> triplet_at A B) ?M"
  have ex: "expansion A B = Some (?I, ?J, ?V)"
    by (rule expansion_master [OF assms(1-4)])
  have z: "zip ?I (zip ?J ?V) = sequential_expansion A B"
    by (simp only: zip3_map sequential_expansion_master [OF assms(1)])
  have "sort_reduce (?I, ?J, ?V) = (map fst R, map (fst \<circ> snd) R, map (snd \<circ> snd) R)"
    using sort_reduce_triplets [of ?I ?V ?J] by (simp only: z R_def length_map)
  then show ?thesis
    using assms(4,5) by (simp add: multiply_def ex assemble_def)
qed

lemma sequential_expansion_empty:
  fixes A B :: "'v::comm_semiring_1 coo_matrix"
  assumes "wf_coo A" and "wf_coo B" and "num_entries A = 0 \<or> num_entries B = 0"
  shows "sequential_expansion A B = []"
proof (cases "num_entries A = 0")
  case True
  then show ?thesis by (simp add: sequential_expansion_def)
next
  case False
  then have "row_indices B = []" using assms(2,3) by (simp add: wf_coo_def)
  then have "\<And>r. row_length B r = 0" by (simp add: row_length_def row_offset_def)
  then show ?thesis by (simp add: sequential_expansion_def)
qed

lemma multiply_result:
  fixes A B C :: "'v::comm_semiring_1 coo_matrix"
  assumes "wf_coo A" and "wf_coo B" and "num_cols A = num_rows B"
  defines "R \<equiv> merge_runs (two_pass (sequential_expansion A B))"
  shows "multiply A B C = Some \<lparr>num_rows = num_rows A, num_cols = num_cols B,
           num_entries = length R, row_indices = map fst R,
           column_indices = map (fst \<circ> snd) R, values = map (snd \<circ> snd) R\<rparr>"
proof (cases "num_entries A = 0 \<or> num_entries B = 0")
  case True
  then have "R = []"
    using sequential_expansion_empty [OF assms(1,2)] by (simp add: R_def two_pass_Nil merge_runs_Nil)
  then show ?thesis using multiply_empty [OF True] by simp
next
  case False
  then show ?thesis
    unfolding R_def using multiply_general [OF assms(1-3)] by simp
qed

lemma those_length: "those xs = Some ys \<Longrightarrow> length ys = length xs"
  by (induction xs arbitrary: ys) (auto split: option.splits)

lemma gather_length: "gather n mp input = Some ys \<Longrightarrow> length ys = n"
  by (auto simp: gather_def dest: those_length)

lemma dense_entry_sum:
  "dense_entry n A B i j = (\<Sum>k<n. A i k * B k j)"
proof -
  have "\<And>a. foldl (\<lambda>v k. v + A i k * B k j) a [0..<n] = a + (\<Sum>k<n. A i k * B k j)"
    by (induction n) (simp_all add: add.assoc)
  then show ?thesis by (simp add: dense_entry_def)
qed

lemma entries_result:
  "entries \<lparr>num_rows = nr, num_cols = nc, num_entries = length R, row_indices = map fst R,
     column_indices = map (fst \<circ> snd) R, values = map (snd \<circ> snd) R\<rparr> = R"
  by (simp add: entries_def unzip3)

lemma keys_result:
  "zip (map fst R) (map (fst \<circ> snd) R) = map (\<lambda>e. (fst e, (fst \<circ> snd) e)) R"
  by (induction R) simp_all

lemma coord_less_distinct: "sorted_wrt coord_less ks \<Longrightarrow> distinct ks"
proof -
  have "coord_less = (<)" by (simp add: fun_eq_iff coord_less_iff)
  then show "sorted_wrt coord_less ks \<Longrightarrow> distinct ks"
    by (simp add: strict_sorted_iff)
qed

lemma sorted_result_keys:
  "sorted_wrt coord_less (map (\<lambda>e. (fst e, (fst \<circ> snd) e)) (merge_runs (two_pass es)))"
  by (rule strict_merge_runs) (rule sorted_two_pass)

section \<open>Multiplication by the identity\<close>

lemma takeWhile_less_upt: "takeWhile (\<lambda>i. i < r) [0..<n] = [0..<min r n]"
proof (induction n)
  case 0
  then show ?case by simp
next
  case (Suc n)
  show ?case
  proof (cases "n < r")
    case True
    then have "takeWhile (\<lambda>i. i < r) ([0..<n] @ [n]) = [0..<n] @ takeWhile (\<lambda>i. i < r) [n]"
      by (intro takeWhile_append2) simp
    moreover have "min r (Suc n) = Suc n" using True by simp
    ultimately show ?thesis using True by simp
  next
    case False
    then have "min r (Suc n) = min r n" by simp
    moreover have "takeWhile (\<lambda>i. i < r) ([0..<n] @ [n]) = takeWhile (\<lambda>i. i < r) [0..<n]"
      using False by (simp add: takeWhile_tail)
    ultimately show ?thesis using Suc by simp
  qed
qed

lemma row_offset_identity: "row_offset (identity_coo n) r = min r n"
  by (simp add: row_offset_def identity_coo_def takeWhile_less_upt)

lemma wf_identity: "wf_coo (identity_coo n)"
  by (simp add: wf_coo_def identity_coo_def list_all_iff)

lemma sequential_expansion_identity:
  fixes A :: "'v::comm_semiring_1 coo_matrix"
  assumes "wf_coo A"
  shows "sequential_expansion A (identity_coo (num_cols A)) = entries A"
proof -
  let ?n = "num_cols A"
  let ?Id = "identity_coo (num_cols A) :: 'v coo_matrix"
  have len: "length (column_indices A) = num_entries A"
    and cb: "\<And>m. m < num_entries A \<Longrightarrow> column_indices A ! m < ?n"
    using assms by (simp_all add: wf_coo_def list_all_length)
  have "sequential_expansion A ?Id
        = map (\<lambda>m. (row_indices A ! m, column_indices A ! m, values A ! m)) [0..<num_entries A]"
  proof -
    have "map (\<lambda>m. map (\<lambda>k. triplet_at A ?Id (m, k))
                 [0..<row_length ?Id (column_indices A ! m)]) [0..<num_entries A]
          = map (\<lambda>m. [(row_indices A ! m, column_indices A ! m, values A ! m)]) [0..<num_entries A]"
    proof (rule map_cong [OF refl])
      fix m
      assume "m \<in> set [0..<num_entries A]"
      then have c: "column_indices A ! m < ?n" using cb by simp
      then have "row_length ?Id (column_indices A ! m) = 1"
        by (simp add: row_length_def row_offset_identity)
      moreover have "column_indices ?Id = [0..<?n]"
        and "values ?Id = replicate ?n 1"
        by (simp_all add: identity_coo_def)
      then have "triplet_at A ?Id (m, 0)
                     = (row_indices A ! m, column_indices A ! m, values A ! m)"
        using c by (simp add: triplet_at_def row_offset_identity)
      ultimately show "map (\<lambda>k. triplet_at A ?Id (m, k))
                 [0..<row_length ?Id (column_indices A ! m)]
            = [(row_indices A ! m, column_indices A ! m, values A ! m)]"
        by simp
    qed
    then show ?thesis
      unfolding sequential_expansion_def by (simp only: concat_map_singleton)
  qed
  then show ?thesis by (simp only: entries_as_map [OF assms])
qed

lemma write_range_scan:
  "write_range (exclusive_scan seg 0) (replicate (length seg + 1) 0) = exclusive_scan seg 0 @ [0]"
proof -
  have "replicate (length seg + 1) (0::nat) = replicate (length seg) 0 @ [0]"
    by (simp add: replicate_append_same)
  then show ?thesis
    by (simp add: write_range_def length_exclusive_scan)
qed

section \<open>The claims\<close>

text \<open>
  Claim C1. For well-formed operands with \<open>A.num_cols = B.num_rows\<close> and the entries of
  \<open>B\<close> sorted by row, the call completes and the value of the result at every coordinate
  \<open>(i, j)\<close> is the sum over \<open>k\<close> of \<open>A(i,k) * B(k,j)\<close>, which is what the dense product
  computes. The value of a matrix at a coordinate is the sum of its entries there.
\<close>

theorem multiply_matches_dense_product:
  fixes A B C :: "'v::comm_semiring_1 coo_matrix"
  assumes "wf_coo A" and "wf_coo B" and "num_cols A = num_rows B" and "sorted (row_indices B)"
  shows "\<exists>C'. multiply A B C = Some C' \<and>
         (\<forall>i j. coo_at C' i j = (\<Sum>k<num_cols A. coo_at A i k * coo_at B k j) \<and>
                coo_at C' i j = dense_entry (num_cols A) (coo_at A) (coo_at B) i j)"
proof -
  let ?R = "merge_runs (two_pass (sequential_expansion A B))"
  let ?C = "\<lparr>num_rows = num_rows A, num_cols = num_cols B,
           num_entries = length ?R, row_indices = map fst ?R,
           column_indices = map (fst \<circ> snd) ?R, values = map (snd \<circ> snd) ?R\<rparr>"
  have m: "multiply A B C = Some ?C"
    by (rule multiply_result [OF assms(1-3)])
  have cols: "\<forall>e \<in> set (entries A). fst (snd e) < num_cols A"
  proof
    fix e
    assume e: "e \<in> set (entries A)"
    obtain r c v where rcv: "e = (r, c, v)" by (cases e) auto
    have "(c, v) \<in> set (zip (column_indices A) (values A))"
      using e unfolding rcv entries_def by (rule set_zip_rightD)
    then have "c \<in> set (column_indices A)"
      by (rule set_zip_leftD)
    then show "fst (snd e) < num_cols A"
      using assms(1) by (simp add: rcv wf_coo_def list_all_iff)
  qed
  have "coo_at ?C i j = (\<Sum>k<num_cols A. coo_at A i k * coo_at B k j)" for i j
  proof -
    have "coo_at ?C i j = key_sum i j ?R"
      by (simp only: coo_at_def entries_result)
    also have "\<dots> = key_sum i j (expand_seq A B)"
      by (simp only: key_sum_merge_runs key_sum_two_pass sequential_expansion_rows [OF assms(1,2)])
    also have "\<dots> = sum_list (map (\<lambda>(r, c, a). if r = i then a * coo_at B c j else 0) (entries A))"
      by (rule key_sum_expand_seq [OF assms(2,4)])
    also have "\<dots> = (\<Sum>k<num_cols A. key_sum i k (entries A) * coo_at B k j)"
      by (rule row_by_columns [OF cols, symmetric])
    finally show ?thesis by (simp only: coo_at_def)
  qed
  then show ?thesis by (simp add: m dense_entry_sum)
qed

theorem multiply_matches_dense_product_witness:
  "wf_coo A_ex \<and> wf_coo B_ex \<and> num_cols A_ex = num_rows B_ex \<and> sorted (row_indices B_ex) \<and>
   (\<exists>C'. multiply A_ex B_ex C_ex = Some C' \<and>
      (\<forall>i j. coo_at C' i j = (\<Sum>k<num_cols A_ex. coo_at A_ex i k * coo_at B_ex k j)))"
proof -
  have h1: "wf_coo A_ex" and h2: "wf_coo B_ex" and h3: "num_cols A_ex = num_rows B_ex"
    and h4: "sorted (row_indices B_ex)"
    by code_simp+
  show ?thesis
    using multiply_matches_dense_product [OF h1 h2 h3 h4, of C_ex] h1 h2 h3 h4 by blast
qed

text \<open>
  Claim C2. For well-formed operands with \<open>A.num_cols = B.num_rows\<close> and \<open>B\<close> sorted by
  row, the entries of the result are strictly ascending in the lexicographic order of
  \<open>(row, column)\<close>, so no two of them share a coordinate; and the two sorting passes
  followed by the merge of equal keys give this order for every intermediate triplet
  stream.
\<close>

theorem multiply_output_strictly_ascending:
  fixes A B C :: "'v::comm_semiring_1 coo_matrix"
  assumes "wf_coo A" and "wf_coo B" and "num_cols A = num_rows B" and "sorted (row_indices B)"
  shows "(\<exists>C'. multiply A B C = Some C' \<and>
            sorted_wrt coord_less (zip (row_indices C') (column_indices C')) \<and>
            distinct (zip (row_indices C') (column_indices C'))) \<and>
         (\<forall>I J (V :: 'v list). length I = length V \<and> length J = length V \<longrightarrow>
            sorted_wrt coord_less (zip (fst (sort_reduce (I, J, V)))
                                       (fst (snd (sort_reduce (I, J, V))))))"
proof -
  let ?R = "merge_runs (two_pass (sequential_expansion A B))"
  have m: "multiply A B C = Some \<lparr>num_rows = num_rows A, num_cols = num_cols B,
           num_entries = length ?R, row_indices = map fst ?R,
           column_indices = map (fst \<circ> snd) ?R, values = map (snd \<circ> snd) ?R\<rparr>"
    by (rule multiply_result [OF assms(1-3)])
  have s: "sorted_wrt coord_less (zip (map fst R) (map (fst \<circ> snd) R))"
    if "R = merge_runs (two_pass es)" for R es :: "(nat \<times> nat \<times> 'v) list"
    unfolding that keys_result by (rule sorted_result_keys)
  have "sorted_wrt coord_less (zip (fst (sort_reduce (I, J, V))) (fst (snd (sort_reduce (I, J, V)))))"
    if "length I = length V" and "length J = length V" for I J and V :: "'v list"
    using s [OF refl, of "zip I (zip J V)"] by (simp add: sort_reduce_triplets [OF that])
  moreover have "sorted_wrt coord_less (zip (map fst ?R) (map (fst \<circ> snd) ?R))"
    by (rule s [OF refl])
  ultimately show ?thesis
    by (simp add: m coord_less_distinct)
qed

theorem multiply_output_strictly_ascending_witness:
  "wf_coo A_ex \<and> wf_coo B_ex \<and> num_cols A_ex = num_rows B_ex \<and> sorted (row_indices B_ex) \<and>
   (\<exists>C'. multiply A_ex B_ex C_ex = Some C' \<and>
      sorted_wrt coord_less (zip (row_indices C') (column_indices C'))) \<and>
   length [2, 0, 2 :: nat] = length [5, 7, 1 :: int] \<and> length [1, 3, 1 :: nat] = length [5, 7, 1 :: int] \<and>
   sorted_wrt coord_less (zip (fst (sort_reduce ([2, 0, 2], [1, 3, 1], [5, 7, 1 :: int])))
                              (fst (snd (sort_reduce ([2, 0, 2], [1, 3, 1], [5, 7, 1 :: int])))))"
proof -
  have h1: "wf_coo A_ex" and h2: "wf_coo B_ex" and h3: "num_cols A_ex = num_rows B_ex"
    and h4: "sorted (row_indices B_ex)"
    by code_simp+
  have h5: "length [2, 0, 2 :: nat] = length [5, 7, 1 :: int] \<and> length [1, 3, 1 :: nat] = length [5, 7, 1 :: int]"
    by simp
  show ?thesis
    using multiply_output_strictly_ascending [OF h1 h2 h3 h4, of C_ex] h1 h2 h3 h4 h5 by blast
qed

text \<open>
  Claim C3. On the general path, for well-formed operands with \<open>A.num_cols = B.num_rows\<close>
  and \<open>B\<close> sorted by row, the arrays \<open>I\<close>, \<open>J\<close>, \<open>V\<close> built by the scatters, the
  maximum scan, the segmented scan and the gathers hold exactly the triplets of the
  sequential nested loop: one triplet \<open>(i, B.column_indices[offsets[j] + k],
  a * B.values[offsets[j] + k])\<close> for every entry \<open>(i, j, a)\<close> of \<open>A\<close> and every \<open>k\<close> below
  the segment length. They are equal as lists, hence as multisets.
\<close>

theorem parallel_expansion_is_sequential:
  fixes A B :: "'v::comm_semiring_1 coo_matrix"
  assumes "wf_coo A" and "wf_coo B" and "num_cols A = num_rows B" and "sorted (row_indices B)"
    and "\<not> (num_entries A = 0 \<or> num_entries B = 0)"
  shows "\<exists>I J V. expansion A B = Some (I, J, V) \<and> length I = length V \<and> length J = length V \<and>
           zip I (zip J V) = sequential_expansion A B \<and>
           mset (zip I (zip J V)) = mset (sequential_expansion A B)"
proof -
  have ne: "num_entries A \<noteq> 0" using assms(5) by simp
  show ?thesis
    using expansion_master [OF assms(1-3) ne] sequential_expansion_master [OF assms(1), of B]
    by (simp add: zip3_map)
qed

theorem parallel_expansion_is_sequential_witness:
  "wf_coo A_ex \<and> wf_coo B_ex \<and> num_cols A_ex = num_rows B_ex \<and> sorted (row_indices B_ex) \<and>
   \<not> (num_entries A_ex = 0 \<or> num_entries B_ex = 0) \<and>
   (\<exists>I J V. expansion A_ex B_ex = Some (I, J, V) \<and>
      mset (zip I (zip J V)) = mset (sequential_expansion A_ex B_ex))"
proof -
  have h1: "wf_coo A_ex" and h2: "wf_coo B_ex" and h3: "num_cols A_ex = num_rows B_ex"
    and h4: "sorted (row_indices B_ex)"
    and h5: "\<not> (num_entries A_ex = 0 \<or> num_entries B_ex = 0)"
    by code_simp+
  show ?thesis
    using parallel_expansion_is_sequential [OF h1 h2 h3 h4 h5] h1 h2 h3 h4 h5 by blast
qed




text \<open>
  Claim C5. If \<open>A\<close> or \<open>B\<close> has no entries, the destination becomes the matrix of shape
  \<open>(A.num_rows, B.num_cols)\<close> with no entries, whatever the operands hold otherwise. The
  stages are not run: at the concrete input below the trailing write would read out of
  range.
\<close>

theorem empty_operand_fast_path:
  fixes A B C :: "'v::comm_semiring_1 coo_matrix"
  assumes "num_entries A = 0 \<or> num_entries B = 0"
  shows "multiply A B C = Some \<lparr>num_rows = num_rows A, num_cols = num_cols B, num_entries = 0,
           row_indices = [], column_indices = [], values = []\<rparr>"
  using assms by (simp add: multiply_def)

theorem empty_operand_fast_path_witness:
  "(num_entries E_ex = 0 \<or> num_entries B_ex = 0) \<and>
   expansion E_ex B_ex = None \<and>
   multiply E_ex B_ex C_ex = Some \<lparr>num_rows = 3, num_cols = 2, num_entries = 0,
           row_indices = [], column_indices = [], values = []\<rparr>"
proof -
  have h: "num_entries E_ex = 0 \<or> num_entries B_ex = 0" by code_simp
  have e: "expansion E_ex B_ex = None" by code_simp
  have "num_rows E_ex = 3" and "num_cols B_ex = 2" by code_simp+
  then show ?thesis
    using empty_operand_fast_path [OF h, of C_ex] h e by simp
qed

text \<open>
  Claim C6. With \<open>A.num_cols = B.num_rows\<close>, the matrix produced has \<open>A.num_rows\<close> rows and
  \<open>B.num_cols\<close> columns on both paths, and for well-formed operands with \<open>B\<close> sorted by
  row a matrix is produced.
\<close>

theorem result_shape:
  fixes A B C :: "'v::comm_semiring_1 coo_matrix"
  assumes "num_cols A = num_rows B"
  shows "(\<forall>C'. multiply A B C = Some C' \<longrightarrow>
            num_rows C' = num_rows A \<and> num_cols C' = num_cols B) \<and>
         (wf_coo A \<and> wf_coo B \<and> sorted (row_indices B) \<longrightarrow> multiply A B C \<noteq> None)"
proof -
  have "num_rows C' = num_rows A \<and> num_cols C' = num_cols B"
    if "multiply A B C = Some C'" for C'
  proof (cases "num_entries A = 0 \<or> num_entries B = 0")
    case True
    then show ?thesis using that by (auto simp: multiply_def)
  next
    case False
    show ?thesis
    proof (cases "expansion A B")
      case None
      then show ?thesis using False that by (simp add: multiply_def)
    next
      case (Some t)
      obtain I J V where "sort_reduce t = (I, J, V)" by (cases "sort_reduce t") auto
      then show ?thesis using False Some that by (auto simp: multiply_def assemble_def)
    qed
  qed
  moreover have "multiply A B C \<noteq> None" if "wf_coo A" and "wf_coo B"
    using multiply_result [OF that assms, of C] by simp
  ultimately show ?thesis by blast
qed

theorem result_shape_witness:
  "num_cols A_ex = num_rows B_ex \<and> wf_coo A_ex \<and> wf_coo B_ex \<and> sorted (row_indices B_ex) \<and>
   (\<exists>C'. multiply A_ex B_ex C_ex = Some C' \<and>
      num_rows C' = num_rows A_ex \<and> num_cols C' = num_cols B_ex)"
proof -
  have h1: "num_cols A_ex = num_rows B_ex" and h2: "wf_coo A_ex" and h3: "wf_coo B_ex"
    and h4: "sorted (row_indices B_ex)"
    by code_simp+
  have "multiply A_ex B_ex C_ex \<noteq> None"
    using result_shape [OF h1, of C_ex] h2 h3 h4 by blast
  then obtain C' where "multiply A_ex B_ex C_ex = Some C'" by blast
  then show ?thesis
    using result_shape [OF h1, of C_ex] h1 h2 h3 h4 by blast
qed

text \<open>
  Claim C7. If both operands have entries but every column index of \<open>A\<close> refers to an
  empty row of \<open>B\<close>, the total of the segment lengths is zero, the intermediate arrays are
  empty, the call completes, and the result
  is the matrix of shape \<open>(A.num_rows, B.num_cols)\<close> with no entries.
\<close>

theorem no_intermediate_triplets:
  fixes A B C :: "'v::comm_semiring_1 coo_matrix"
  assumes "wf_coo A" and "wf_coo B" and "num_cols A = num_rows B" and "sorted (row_indices B)"
    and "num_entries A \<noteq> 0" and "num_entries B \<noteq> 0"
    and "\<forall>j \<in> set (column_indices A). j \<notin> set (row_indices B)"
  shows "sum_list (segment_lengths_of A B) = 0 \<and> expansion A B = Some ([], [], []) \<and>
         multiply A B C = Some \<lparr>num_rows = num_rows A, num_cols = num_cols B, num_entries = 0,
           row_indices = [], column_indices = [], values = []\<rparr>"
proof -
  have T: "sum_list (segment_lengths_of A B) = 0"
    using assms(7) by (simp add: segment_lengths_of_def row_length_absent)
  then have "length (master (segment_lengths_of A B)) = 0"
    by (simp only: length_master)
  then have M: "master (segment_lengths_of A B) = []"
    by simp
  have e: "expansion A B = Some ([], [], [])"
    using expansion_master [OF assms(1-3,5)] by (simp add: M)
  have "sequential_expansion A B = []"
    by (simp add: sequential_expansion_master [OF assms(1)] M)
  then show ?thesis
    using multiply_general [OF assms(1-3,5,6), of C] e T
    by (simp add: two_pass_Nil merge_runs_Nil)
qed

theorem no_intermediate_triplets_witness:
  "wf_coo A_hollow \<and> wf_coo B_ex \<and> num_cols A_hollow = num_rows B_ex \<and>
   num_entries A_hollow \<noteq> 0 \<and> num_entries B_ex \<noteq> 0 \<and>
   sorted (row_indices B_ex) \<and>
   list_all (\<lambda>j. j \<notin> set (row_indices B_ex)) (column_indices A_hollow) \<and>
   multiply A_hollow B_ex C_ex = Some \<lparr>num_rows = 2, num_cols = 2, num_entries = 0,
           row_indices = [], column_indices = [], values = []\<rparr>"
proof -
  have h1: "wf_coo A_hollow" and h2: "wf_coo B_ex" and h3: "num_cols A_hollow = num_rows B_ex"
    and h4: "num_entries A_hollow \<noteq> 0" and h5: "num_entries B_ex \<noteq> 0"
    and l6: "list_all (\<lambda>j. j \<notin> set (row_indices B_ex)) (column_indices A_hollow)"
    and h7: "sorted (row_indices B_ex)"
    by code_simp+
  have h6: "\<forall>j \<in> set (column_indices A_hollow). j \<notin> set (row_indices B_ex)"
    using l6 by (simp only: list_all_iff)
  have "num_rows A_hollow = 2" and "num_cols B_ex = 2" by code_simp+
  then show ?thesis
    using no_intermediate_triplets [OF h1 h2 h3 h7 h4 h5 h6, of C_ex] h1 h2 h3 h4 h5 l6 h7 by simp
qed

text \<open>
  Claim C8. After the output layout stage \<open>output_ptr[n]\<close> is the sum of the first \<open>n\<close>
  segment lengths for every \<open>n\<close> below \<open>A.num_entries\<close>, and \<open>output_ptr[A.num_entries]\<close>
  is the sum of all of them. The last slot gets this value from the trailing write: after
  the exclusive scan alone it still holds the zero it was created with.
\<close>

theorem output_ptr_prefix_sums:
  assumes "segment_lengths \<noteq> []"
  shows "\<exists>output_ptr.
           output_layout (length segment_lengths) segment_lengths = Some output_ptr \<and>
           length output_ptr = length segment_lengths + 1 \<and>
           (\<forall>n < length segment_lengths. output_ptr ! n = sum_list (take n segment_lengths)) \<and>
           output_ptr ! length segment_lengths = sum_list segment_lengths \<and>
           write_range (exclusive_scan segment_lengths 0) (replicate (length segment_lengths + 1) 0)
             ! length segment_lengths = 0"
proof -
  let ?n = "length segment_lengths"
  let ?ptr = "exclusive_scan segment_lengths 0 @ [sum_list segment_lengths]"
  have "output_layout ?n segment_lengths = Some ?ptr"
    by (rule output_layout_Some [OF assms])
  moreover have "length ?ptr = ?n + 1"
    by (simp add: length_exclusive_scan)
  moreover have "\<forall>n < ?n. ?ptr ! n = sum_list (take n segment_lengths)"
    by (simp add: nth_append length_exclusive_scan nth_exclusive_scan)
  moreover have "?ptr ! ?n = sum_list segment_lengths"
    by (simp add: nth_append length_exclusive_scan)
  moreover have "write_range (exclusive_scan segment_lengths 0) (replicate (?n + 1) 0) ! ?n = 0"
    by (simp only: write_range_scan) (simp add: nth_append length_exclusive_scan)
  ultimately show ?thesis by blast
qed

theorem output_ptr_prefix_sums_witness:
  "[3, 1, 0, 3, 3 :: nat] \<noteq> [] \<and>
   output_layout 5 [3, 1, 0, 3, 3] = Some [0, 3, 4, 4, 7, 10] \<and>
   (\<exists>output_ptr.
      output_layout (length [3, 1, 0, 3, 3 :: nat]) [3, 1, 0, 3, 3] = Some output_ptr \<and>
      output_ptr ! length [3, 1, 0, 3, 3 :: nat] = sum_list [3, 1, 0, 3, 3])"
proof -
  have h: "[3, 1, 0, 3, 3 :: nat] \<noteq> []" by simp
  have e: "output_layout 5 [3, 1, 0, 3, 3] = Some [0, 3, 4, 4, 7, 10]" by code_simp
  show ?thesis
    using output_ptr_prefix_sums [OF h] h e by blast
qed

text \<open>
  Claim C9. Multiplying a well-formed \<open>A\<close> by the identity of size \<open>A.num_cols\<close> gives
  the sorting and merging stages applied to the arrays of \<open>A\<close> itself, and the value at
  every coordinate is the one \<open>A\<close> has there.
\<close>

theorem multiply_by_identity:
  fixes A C :: "'v::comm_semiring_1 coo_matrix"
  assumes "wf_coo A"
  shows "multiply A (identity_coo (num_cols A)) C
           = Some (assemble (num_rows A) (num_cols A)
                     (sort_reduce (row_indices A, column_indices A, values A)) C) \<and>
         (\<forall>i j. coo_at (assemble (num_rows A) (num_cols A)
                          (sort_reduce (row_indices A, column_indices A, values A)) C) i j
                = coo_at A i j)"
proof -
  let ?Id = "identity_coo (num_cols A) :: 'v coo_matrix"
  let ?R = "merge_runs (two_pass (entries A))"
  have len: "length (row_indices A) = length (values A)"
    "length (column_indices A) = length (values A)"
    using assms by (simp_all add: wf_coo_def)
  have "num_cols A = num_rows ?Id" and nc: "num_cols ?Id = num_cols A"
    by (simp_all add: identity_coo_def)
  then have m: "multiply A ?Id C = Some \<lparr>num_rows = num_rows A, num_cols = num_cols A,
           num_entries = length ?R, row_indices = map fst ?R,
           column_indices = map (fst \<circ> snd) ?R, values = map (snd \<circ> snd) ?R\<rparr>"
    using multiply_result [OF assms wf_identity, of "num_cols A" C]
    by (simp only: sequential_expansion_identity [OF assms])
  have "sort_reduce (row_indices A, column_indices A, values A)
        = (map fst ?R, map (fst \<circ> snd) ?R, map (snd \<circ> snd) ?R)"
    using sort_reduce_triplets [OF len] by (simp only: entries_def)
  then have a: "assemble (num_rows A) (num_cols A)
                  (sort_reduce (row_indices A, column_indices A, values A)) C
                = \<lparr>num_rows = num_rows A, num_cols = num_cols A,
                   num_entries = length ?R, row_indices = map fst ?R,
                   column_indices = map (fst \<circ> snd) ?R, values = map (snd \<circ> snd) ?R\<rparr>"
    by (simp add: assemble_def)
  have "coo_at (assemble (num_rows A) (num_cols A)
                  (sort_reduce (row_indices A, column_indices A, values A)) C) i j
        = coo_at A i j" for i j
    by (simp only: a coo_at_def entries_result key_sum_merge_runs key_sum_two_pass)
  then show ?thesis by (simp only: m a) simp
qed

theorem multiply_by_identity_witness:
  "wf_coo A_ex \<and>
   multiply A_ex (identity_coo 3) C_ex
     = Some \<lparr>num_rows = 3, num_cols = 3, num_entries = 4, row_indices = [0, 0, 1, 2],
          column_indices = [0, 1, 2, 1], values = [2, 4, 3, 6]\<rparr> \<and>
   (\<forall>i j. coo_at (assemble (num_rows A_ex) (num_cols A_ex)
                    (sort_reduce (row_indices A_ex, column_indices A_ex, values A_ex)) C_ex) i j
          = coo_at A_ex i j)"
proof -
  have h: "wf_coo A_ex" by code_simp
  have e: "multiply A_ex (identity_coo 3) C_ex
     = Some \<lparr>num_rows = 3, num_cols = 3, num_entries = 4, row_indices = [0, 0, 1, 2],
          column_indices = [0, 1, 2, 1], values = [2, 4, 3, 6]\<rparr>"
    by code_simp
  show ?thesis
    using multiply_by_identity [OF h, of C_ex] h e by blast
qed

text \<open>
  Claim C10. On the general path \<open>A.num_entries\<close> is at least 1, and the two reads at
  \<open>A.num_entries - 1\<close> and the write at \<open>A.num_entries\<close> of the trailing total are inside
  \<open>output_ptr\<close> (of length \<open>A.num_entries + 1\<close>) and \<open>segment_lengths\<close> (of length
  \<open>A.num_entries\<close>): none of them takes the out-of-range branch.
\<close>

theorem trailing_total_in_bounds:
  fixes A B :: "'v coo_matrix"
  assumes "\<not> (num_entries A = 0 \<or> num_entries B = 0)"
    and "gather (num_entries A) (column_indices A) B_row_lengths = Some segment_lengths"
  shows "1 \<le> num_entries A \<and>
         (\<exists>p s. lookup (write_range (exclusive_scan segment_lengths 0)
                          (replicate (num_entries A + 1) 0)) (num_entries A - 1) = Some p \<and>
                lookup segment_lengths (num_entries A - 1) = Some s \<and>
                num_entries A < length (write_range (exclusive_scan segment_lengths 0)
                                          (replicate (num_entries A + 1) 0)) \<and>
                output_layout (num_entries A) segment_lengths
                  = Some ((write_range (exclusive_scan segment_lengths 0)
                             (replicate (num_entries A + 1) 0))[num_entries A := p + s]))"
proof -
  let ?n = "num_entries A"
  have n: "?n \<noteq> 0" using assms(1) by simp
  have len: "length segment_lengths = ?n"
    by (rule gather_length [OF assms(2)])
  let ?ptr = "write_range (exclusive_scan segment_lengths 0) (replicate (?n + 1) 0)"
  have lp: "length ?ptr = ?n + 1"
    using write_range_scan [of segment_lengths] by (simp add: len length_exclusive_scan)
  have "lookup ?ptr (?n - 1) = Some (?ptr ! (?n - 1))"
    using n lp by (simp add: lookup_def)
  moreover have "lookup segment_lengths (?n - 1) = Some (segment_lengths ! (?n - 1))"
    using n len by (simp add: lookup_def)
  moreover have "?n < length ?ptr" using lp by simp
  ultimately show ?thesis
    using n by (simp add: output_layout_def trailing_total_def)
qed

theorem trailing_total_in_bounds_witness:
  "\<not> (num_entries A_ex = 0 \<or> num_entries B_ex = 0) \<and>
   gather (num_entries A_ex) (column_indices A_ex) [1, 3, 0 :: nat] = Some [3, 1, 0, 3, 3] \<and>
   1 \<le> num_entries A_ex \<and>
   (\<exists>s. lookup [3, 1, 0, 3, 3 :: nat] (num_entries A_ex - 1) = Some s)"
proof -
  have h1: "\<not> (num_entries A_ex = 0 \<or> num_entries B_ex = 0)"
    and h2: "gather (num_entries A_ex) (column_indices A_ex) [1, 3, 0 :: nat] = Some [3, 1, 0, 3, 3]"
    by code_simp+
  show ?thesis
    using trailing_total_in_bounds [OF h1 h2] h1 h2 by blast
qed

end
